theory Spec2Isabelle
  imports Main
begin

section \<open>Data model of the reconciler (src/src/stem.ts)\<close>

text \<open>
  Virtual elements are JavaScript objects that the reconciler mutates in place and
  compares by identity, so they live in a store: an element is named by its address and
  the store maps addresses to the element's fields. A field that may hold
  \<open>null\<close> or \<open>undefined\<close> is an \<open>option\<close>; both falsy values are \<open>None\<close>.
  Only the fields that stem.ts reads or writes are kept.
\<close>

type_synonym eref = nat
type_synonym dref = nat
type_synonym sref = nat
type_synonym ctxt = "(string \<times> string) list"

datatype error = TypeError | InvariantViolation string | NotFoundError | HierarchyRequestError

text \<open>
  A \<open>_keymap\<close> is a plain JavaScript object used as an index from keys to children, and
  the matcher reads and writes it with \<open>index[key]\<close>. Such an object has its own
  properties, which here hold elements, and a prototype: \<open>Object.prototype\<close> for an
  object written \<open>{}\<close>, nothing for one made by \<open>Object.create(null)\<close>, and an element
  once the assignment \<open>index['__proto__'] = child\<close> has run on it.
\<close>

datatype prototype = ObjectPrototype | NullPrototype | ElementPrototype eref

record jsobject =
  own :: "(string \<times> eref) list"
  proto :: prototype

text \<open>
  What a property read gives, as far as the matcher can tell values apart: an element, a
  truthy value that is no element (a function, a string, an array, another object), or a
  falsy value (\<open>undefined\<close>, \<open>null\<close>, \<open>false\<close>).
\<close>

datatype jsval = Elem eref | Truthy | Falsy

text \<open>
  \<open>key\<close> is the property name the element's key converts to when it indexes a
  \<open>_keymap\<close> (\<open>undefined\<close> for an element without a key). \<open>others\<close> holds what reading
  the element's remaining properties gives (\<open>props\<close>, the value of \<open>key\<close>, and whatever
  else type.ts, which is not among the sources, declares); they are read only when the
  element is the prototype of a \<open>_keymap\<close>.
\<close>

record element =
  etype :: string
  children :: "eref option list"
  key :: string
  dom_ref :: "dref option"
  stem_ref :: "sref option"
  keymap :: "jsobject option"
  unmounted :: bool
  ownerElement :: "eref option"
  componentInstance :: "nat option"
  others :: "(string \<times> jsval) list"

type_synonym heap = "eref \<Rightarrow> element"

datatype AttrState = UNCHANGED | NEW | REMOVED | REPLACED | STYLE_CHANGED

datatype attr_value = Plain string | Styles "(string \<times> string) list" | Handler nat

record attr_change =
  a_key :: string
  a_value :: attr_value
  a_state :: AttrState

record Difference =
  flags :: nat
  attr :: "attr_change list"

text \<open>\<open>DifferenceBits.REPLACE_ELEMENT\<close>, the value the compiled lib/stem.js inlines.\<close>

definition REPLACE_ELEMENT :: nat where
  "REPLACE_ELEMENT = 8"

text \<open>\<open>PatchStackType\<close>: one frame of the walker's explicit stack.\<close>

record frame =
  ctxt :: ctxt
  newElement :: "eref option"
  oldElement :: "eref option"
  newChildren :: "eref option list option"
  oldChildren :: "eref option list option"
  parsed :: bool
  difference :: "Difference option"
  root :: "eref option"
  isKeyedItem :: bool

text \<open>\<open>Batch\<close>: one deferred mutation instruction.\<close>

record batch =
  b_root :: "eref option"
  b_parent :: "eref option"
  b_newElement :: "eref option"
  b_oldElement :: "eref option"
  b_isKeyedItem :: bool
  b_difference :: Difference
  b_ctxt :: ctxt

text \<open>
  The collaborators of stem.ts that are imported from other modules (element.ts,
  difference.ts) are parameters of the model. \<open>instantiateComponent\<close> runs user code
  and may change the store; the others only read it.
\<close>

record env =
  isComponent :: "heap \<Rightarrow> eref \<Rightarrow> bool"
  instantiateComponent :: "ctxt \<Rightarrow> eref \<Rightarrow> eref option \<Rightarrow> heap \<Rightarrow> (eref option \<times> ctxt) \<times> heap"
  getComponentRenderedTree :: "heap \<Rightarrow> eref \<Rightarrow> eref option"
  stripComponent :: "heap \<Rightarrow> eref \<Rightarrow> eref option"
  diff :: "heap \<Rightarrow> eref option \<Rightarrow> eref option \<Rightarrow> Difference"

section \<open>The walker\<close>

subsection \<open>Array primitives\<close>

text \<open>\<open>Array.prototype.shift\<close>: the first entry (\<open>undefined\<close> on an empty array) and the rest.\<close>

definition shift :: "'a option list \<Rightarrow> 'a option \<times> 'a option list" where
  "shift xs = (case xs of [] \<Rightarrow> (None, []) | x # r \<Rightarrow> (x, r))"

text \<open>\<open>Array.prototype.indexOf\<close>: the first index holding the value, or \<open>-1\<close>.\<close>

fun indexOf :: "'a list \<Rightarrow> 'a \<Rightarrow> int" where
  "indexOf [] v = -1"
| "indexOf (x # xs) v =
     (if x = v then 0 else (let i = indexOf xs v in if i = -1 then -1 else i + 1))"

text \<open>\<open>xs.splice(index, 1)\<close> for a non-negative index: the array without that entry.\<close>

definition splice1 :: "'a list \<Rightarrow> int \<Rightarrow> 'a list" where
  "splice1 xs index = take (nat index) xs @ drop (Suc (nat index)) xs"

subsection \<open>makeInitialStackState\<close>

text \<open>The stack is a list whose head is the top: \<open>push\<close> is \<open>#\<close> and \<open>pop\<close> takes the head.\<close>

definition makeInitialStackState :: "ctxt \<Rightarrow> eref option \<Rightarrow> eref option \<Rightarrow> frame list" where
  "makeInitialStackState context newEl oldEl =
     [\<lparr>ctxt = context, newElement = newEl, oldElement = oldEl,
       newChildren = None, oldChildren = None, parsed = False,
       difference = None, root = newEl, isKeyedItem = False\<rparr>]"

subsection \<open>Property reads and writes on a key index\<close>

text \<open>
  The members of \<open>Object.prototype\<close> that are functions; \<open>__proto__\<close>, an accessor, is
  treated apart.
\<close>

definition object_prototype_members :: "string list" where
  "object_prototype_members =
     [''constructor'', ''hasOwnProperty'', ''isPrototypeOf'', ''propertyIsEnumerable'',
      ''toLocaleString'', ''toString'', ''valueOf'', ''__defineGetter__'', ''__defineSetter__'',
      ''__lookupGetter__'', ''__lookupSetter__'']"

text \<open>
  A read that reaches \<open>Object.prototype\<close>, for an object whose prototype is \<open>p\<close>: the
  getter of \<open>__proto__\<close> returns the prototype of the object the read started from, a
  member is a function, and any other name is \<open>undefined\<close>.
\<close>

definition object_prototype_get :: "prototype \<Rightarrow> string \<Rightarrow> jsval" where
  "object_prototype_get p name =
     (if name = ''__proto__'' then (case p of ElementPrototype e \<Rightarrow> Elem e | _ \<Rightarrow> Truthy)
      else if name \<in> set object_prototype_members then Truthy
      else Falsy)"

definition truthy :: "'a option \<Rightarrow> jsval" where
  "truthy x = (case x of None \<Rightarrow> Falsy | Some y \<Rightarrow> Truthy)"

text \<open>
  A read that reaches an element, the prototype of a key index: the value of the
  property, or \<open>None\<close> when the element has no property of that name and the read goes
  on to \<open>Object.prototype\<close>, an element being a plain object. The bookkeeping fields
  are read from the store; \<open>children\<close> is an array and \<open>type\<close> a tag name or a
  constructor.
\<close>

definition element_get :: "heap \<Rightarrow> eref \<Rightarrow> string \<Rightarrow> jsval option" where
  "element_get h e name =
     (if name = ''_ownerElement''
      then Some (case ownerElement (h e) of None \<Rightarrow> Falsy | Some x \<Rightarrow> Elem x)
      else if name = ''dom'' then Some (truthy (dom_ref (h e)))
      else if name = ''_stem'' then Some (truthy (stem_ref (h e)))
      else if name = ''_keymap'' then Some (truthy (keymap (h e)))
      else if name = ''_componentInstance'' then Some (truthy (componentInstance (h e)))
      else if name = ''_unmounted'' then Some (if unmounted (h e) then Truthy else Falsy)
      else if name = ''children'' then Some Truthy
      else if name = ''type'' then Some (if etype (h e) = [] then Falsy else Truthy)
      else map_of (others (h e)) name)"

text \<open>\<open>index[name]\<close>: an own property first, then the prototype chain.\<close>

definition get_property :: "heap \<Rightarrow> jsobject \<Rightarrow> string \<Rightarrow> jsval" where
  "get_property h index name =
     (case map_of (own index) name of
        Some e \<Rightarrow> Elem e
      | None \<Rightarrow>
          (case proto index of
             NullPrototype \<Rightarrow> Falsy
           | ObjectPrototype \<Rightarrow> object_prototype_get (proto index) name
           | ElementPrototype p \<Rightarrow>
               (case element_get h p name of
                  Some v \<Rightarrow> v
                | None \<Rightarrow> object_prototype_get (proto index) name)))"

text \<open>The object \<open>{}\<close>.\<close>

definition empty_object :: jsobject where
  "empty_object = \<lparr>own = [], proto = ObjectPrototype\<rparr>"

text \<open>
  \<open>index[name] = child\<close> on an object whose prototype is \<open>Object.prototype\<close>, as that of
  \<open>{}\<close> is: for the name \<open>__proto__\<close>, unless the object has an own property of that
  name, the assignment runs the setter of \<open>Object.prototype\<close>, which makes the child
  the prototype of the object and gives it no own property; for any other name the child
  becomes the value of the own property of that name.
\<close>

definition set_property :: "jsobject \<Rightarrow> string \<Rightarrow> eref \<Rightarrow> jsobject" where
  "set_property index name child =
     (if name = ''__proto__'' \<and> map_of (own index) name = None
      then index\<lparr>proto := ElementPrototype child\<rparr>
      else index\<lparr>own := (name, child) # filter (\<lambda>p. fst p \<noteq> name) (own index)\<rparr>)"

subsection \<open>The pairing of createNextStackState\<close>

text \<open>
  The keyed lookup of the matcher: the value of the condition
  \<open>parentOldElement && parentOldElement._keymap && newChild && parentOldElement._keymap[newChild.key]\<close>
  as the branch tests it, which is also the value that \<open>oldChild\<close> receives when the
  branch is taken.
\<close>

definition keyed_lookup :: "heap \<Rightarrow> eref option \<Rightarrow> eref option \<Rightarrow> jsval" where
  "keyed_lookup h parentOldElement newChild =
     (case parentOldElement of
        None \<Rightarrow> Falsy
      | Some po \<Rightarrow>
          (case keymap (h po) of
             None \<Rightarrow> Falsy
           | Some index \<Rightarrow>
               (case newChild of
                  None \<Rightarrow> Falsy
                | Some nc \<Rightarrow> get_property h index (key (h nc)))))"

text \<open>
  \<open>if (parentNewElement && !parentNewElement._keymap) { parentNewElement._keymap = {};
  parentNewElement._keymap[newChild.key] = newChild; }\<close>, which runs in the keyed
  branch, where the new child is present.
\<close>

definition index_new_parent :: "heap \<Rightarrow> eref option \<Rightarrow> eref option \<Rightarrow> heap" where
  "index_new_parent h parentNewElement newChild =
     (case newChild of
        None \<Rightarrow> h
      | Some nc \<Rightarrow>
          (case parentNewElement of
             None \<Rightarrow> h
           | Some pn \<Rightarrow>
               if keymap (h pn) = None
               then h(pn := (h pn)\<lparr>keymap := Some (set_property empty_object (key (h nc)) nc)\<rparr>)
               else h))"

text \<open>
  The pairing part of \<open>createNextStackState\<close> (the \<open>if (parentState)\<close> statement): the
  old child, \<open>isKeyedItem\<close>, the old-children queue as the statement leaves it, and the
  store, in which the new parent may have received a \<open>_keymap\<close>. The keyed branch is
  taken when the lookup gives a truthy value. The queue holds elements and \<open>null\<close>, so
  for a value that is no element \<open>prev.oldChildren.indexOf(oldChild)\<close> is \<open>-1\<close>.
\<close>

definition pair_old_child ::
  "heap \<Rightarrow> frame option \<Rightarrow> eref option \<Rightarrow> eref option list \<Rightarrow> eref option \<times> bool \<times> eref option list \<times> heap" where
  "pair_old_child h parentState newChild ocs =
     (case parentState of
        None \<Rightarrow> (fst (shift ocs), False, snd (shift ocs), h)
      | Some ps \<Rightarrow>
          (let hk = index_new_parent h (newElement ps) newChild
           in (case keyed_lookup h (oldElement ps) newChild of
                 Falsy \<Rightarrow> (fst (shift ocs), False, snd (shift ocs), h)
               | Truthy \<Rightarrow> (fst (shift ocs), False, snd (shift ocs), hk)
               | Elem oc \<Rightarrow>
                   (let index = indexOf ocs (Some oc)
                    in if index \<noteq> -1
                       then (Some oc, True, splice1 ocs index, hk)
                       else (fst (shift ocs), False, snd (shift ocs), hk)))))"

text \<open>
  The part that follows: an unmounted new child becomes \<open>null\<close>, and a new child that
  carries a \<open>_stem\<close> becomes the root handed down.
\<close>

definition child_and_root :: "heap \<Rightarrow> frame \<Rightarrow> eref option \<Rightarrow> eref option \<times> eref option" where
  "child_and_root h prev newChild =
     (case newChild of
        None \<Rightarrow> (None, root prev)
      | Some c \<Rightarrow>
          if unmounted (h c) then (None, root prev)
          else if stem_ref (h c) \<noteq> None then (Some c, Some c)
          else (Some c, root prev))"

text \<open>
  \<open>createNextStackState\<close> returns the child frame, the frame \<open>prev\<close> with its two queues
  as the call leaves them (the source mutates the arrays of \<open>prev\<close>), and the store.
  Reading a queue that is still \<open>null\<close>, or the owner of an absent \<open>prev.newElement\<close>,
  is a TypeError.
\<close>

definition createNextStackState ::
  "ctxt \<Rightarrow> frame option \<Rightarrow> frame \<Rightarrow> eref option \<Rightarrow> heap \<Rightarrow> error + (frame \<times> frame \<times> heap)" where
  "createNextStackState context parentState prev oldEl h =
     (case newChildren prev of
        None \<Rightarrow> Inl TypeError
      | Some ncs \<Rightarrow>
     (case oldChildren prev of
        None \<Rightarrow> Inl TypeError
      | Some ocs \<Rightarrow>
     (case pair_old_child h parentState (fst (shift ncs)) ocs of
        (oldChild, isKeyed, ocs', h1) \<Rightarrow>
     (case child_and_root h1 prev (fst (shift ncs)) of
        (newChild, root') \<Rightarrow>
     (let child = \<lparr>ctxt = context, newElement = newChild, oldElement = oldChild,
                   newChildren = None, oldChildren = None, parsed = False,
                   difference = None, root = root', isKeyedItem = isKeyed\<rparr>;
          prev' = prev\<lparr>newChildren := Some (snd (shift ncs)), oldChildren := Some ocs'\<rparr>
      in (case newChild of
            None \<Rightarrow> Inr (child, prev', h1)
          | Some c \<Rightarrow>
              if ownerElement (h1 c) = None
              then (case newElement prev of
                      None \<Rightarrow> Inl TypeError
                    | Some pn \<Rightarrow>
                        Inr (child, prev',
                             h1(c := (h1 c)\<lparr>ownerElement := ownerElement (h1 pn)\<rparr>)))
              else Inr (child, prev', h1)))))))"

subsection \<open>patchComponent\<close>

text \<open>
  The two \<open>while\<close> loops of \<open>patchComponent\<close> run as long as the new element is a
  component, which user code decides, so they take fuel: one unit for each turn of the
  loop, and \<open>None\<close> when it runs out.
\<close>

fun expand_remount :: "nat \<Rightarrow> env \<Rightarrow> ctxt \<Rightarrow> eref option \<Rightarrow> heap \<Rightarrow> (ctxt \<times> eref option \<times> heap) option" where
  "expand_remount n E context None h = Some (context, None, h)"
| "expand_remount 0 E context (Some e) h =
     (if isComponent E h e then None else Some (context, Some e, h))"
| "expand_remount (Suc n) E context (Some e) h =
     (if isComponent E h e
      then (let ((newEl', context'), h') = instantiateComponent E context e None h
            in expand_remount n E context' newEl' h')
      else Some (context, Some e, h))"

fun expand_reuse ::
  "nat \<Rightarrow> env \<Rightarrow> ctxt \<Rightarrow> eref option \<Rightarrow> eref option \<Rightarrow> heap \<Rightarrow> (ctxt \<times> eref option \<times> eref option \<times> heap) option" where
  "expand_reuse n E context None oldEl h = Some (context, None, oldEl, h)"
| "expand_reuse 0 E context (Some e) oldEl h =
     (if isComponent E h e then None else Some (context, Some e, oldEl, h))"
| "expand_reuse (Suc n) E context (Some e) oldEl h =
     (if isComponent E h e
      then (let h1 = (case oldEl of
                        None \<Rightarrow> h
                      | Some oe \<Rightarrow>
                          if etype (h e) = etype (h oe)
                          then h(e := (h e)\<lparr>componentInstance := componentInstance (h oe)\<rparr>)
                          else h);
                revealedOldElement =
                  (case oldEl of
                     None \<Rightarrow> oldEl
                   | Some oe \<Rightarrow>
                       if isComponent E h1 oe then getComponentRenderedTree E h1 oe else oldEl);
                ((stripedNewTree, newContext), h2) = instantiateComponent E context e oldEl h1
            in expand_reuse n E newContext stripedNewTree revealedOldElement h2)
      else Some (context, Some e, oldEl, h))"

definition patchComponent ::
  "nat \<Rightarrow> env \<Rightarrow> ctxt \<Rightarrow> eref option \<Rightarrow> eref option \<Rightarrow> heap \<Rightarrow> (ctxt \<times> eref option \<times> eref option \<times> heap) option" where
  "patchComponent n E context newEl oldEl h =
     (case (case newEl of
              None \<Rightarrow> Some (context, newEl, oldEl, h)
            | Some ne \<Rightarrow>
                if isComponent E h ne
                then (if (case oldEl of None \<Rightarrow> False | Some oe \<Rightarrow> etype (h oe) \<noteq> etype (h ne))
                      then map_option (\<lambda>(c, e, h'). (c, e, oldEl, h'))
                             (expand_remount n E context newEl h)
                      else expand_reuse n E context newEl oldEl h)
                else Some (context, newEl, oldEl, h)) of
        None \<Rightarrow> None
      | Some (context', newEl', oldEl', h') \<Rightarrow>
          Some (context', newEl',
                (case oldEl' of
                   None \<Rightarrow> None
                 | Some oe \<Rightarrow> if isComponent E h' oe then stripComponent E h' oe else oldEl'),
                h'))"

subsection \<open>FuelStem.patch\<close>

text \<open>
  Modelled from the spec: \<open>invariant\<close> of util.ts is not among the sources. The spec has
  the walk abort fatally when the old element's native node is missing at diff time, and
  the call site passes \<open>!oldElement.dom\<close>, so \<open>invariant\<close> throws its message when its
  condition holds.
\<close>

definition invariant :: "bool \<Rightarrow> string \<Rightarrow> error + unit" where
  "invariant condition message = (if condition then Inl (InvariantViolation message) else Inr ())"

text \<open>
  The state of one run of \<open>patch\<close>: the local \<open>stack\<close> and \<open>parent\<close>, the
  field \<open>this.batchs\<close> (new entries are appended at the end) and the element store.
  \<open>parent\<close> aliases a frame of the stack in the source; the walker reads only its
  \<open>newElement\<close> and \<open>oldElement\<close>, which are final once the frame is parsed, so the model
  keeps a copy.
\<close>

record walk =
  stack :: "frame list"
  parent :: "frame option"
  batchs :: "batch list"
  elems :: heap

text \<open>\<open>if (newElement && oldElement) { newElement._stem = oldElement._stem; }\<close>\<close>

definition inherit_stem :: "heap \<Rightarrow> eref option \<Rightarrow> eref option \<Rightarrow> heap" where
  "inherit_stem h newEl oldEl =
     (case newEl of
        None \<Rightarrow> h
      | Some ne \<Rightarrow>
          (case oldEl of
             None \<Rightarrow> h
           | Some oe \<Rightarrow> h(ne := (h ne)\<lparr>stem_ref := stem_ref (h oe)\<rparr>)))"

text \<open>
  The tail of the loop body: the test on the queues and the difference, and the two pushes.
  \<open>context\<close> and \<open>oldEl\<close> are the loop body's local variables of those names.
\<close>

definition expand_children :: "ctxt \<Rightarrow> eref option \<Rightarrow> frame \<Rightarrow> frame list \<Rightarrow> walk \<Rightarrow> error + walk" where
  "expand_children context oldEl next rest w =
     (case newChildren next of
        None \<Rightarrow> Inl TypeError
      | Some ncs \<Rightarrow>
     (case (if ncs \<noteq> [] then Inr True
            else (case oldChildren next of None \<Rightarrow> Inl TypeError | Some ocs \<Rightarrow> Inr (ocs \<noteq> []))) of
        Inl e \<Rightarrow> Inl e
      | Inr remaining \<Rightarrow>
          if remaining \<and>
             (case difference next of
                None \<Rightarrow> True
              | Some d \<Rightarrow> flags d = 0 \<or> flags d = REPLACE_ELEMENT)
          then (case createNextStackState context (parent w) next oldEl (elems w) of
                  Inl e \<Rightarrow> Inl e
                | Inr (child, next', h') \<Rightarrow>
                    Inr (w\<lparr>stack := child # next' # rest, parent := Some next', elems := h'\<rparr>))
          else Inr (w\<lparr>stack := rest\<rparr>)))"

text \<open>
  The entry pushed on \<open>this.batchs\<close> for a frame being parsed, and the frame as the
  parse leaves it; \<open>h\<close> is the store at that point and \<open>d\<close> the difference computed.
\<close>

definition batch_entry ::
  "walk \<Rightarrow> frame \<Rightarrow> ctxt \<Rightarrow> eref option \<Rightarrow> eref option \<Rightarrow> heap \<Rightarrow> Difference \<Rightarrow> batch" where
  "batch_entry w next context newEl oldEl h d =
     \<lparr>b_root = (case newEl of
                   None \<Rightarrow> root next
                 | Some ne \<Rightarrow> if stem_ref (h ne) \<noteq> None then newEl else root next),
      b_parent = (case parent w of None \<Rightarrow> None | Some p \<Rightarrow> newElement p),
      b_newElement = newEl, b_oldElement = oldEl, b_isKeyedItem = isKeyedItem next,
      b_difference = d, b_ctxt = context\<rparr>"

definition parsed_frame ::
  "frame \<Rightarrow> ctxt \<Rightarrow> eref option \<Rightarrow> eref option \<Rightarrow> heap \<Rightarrow> Difference \<Rightarrow> frame" where
  "parsed_frame next context newEl oldEl h d =
     next\<lparr>ctxt := context, newElement := newEl, oldElement := oldEl,
          newChildren := Some (case newEl of None \<Rightarrow> [] | Some ne \<Rightarrow> children (h ne)),
          oldChildren := Some (case oldEl of None \<Rightarrow> [] | Some oe \<Rightarrow> children (h oe)),
          parsed := True, difference := Some d\<rparr>"

text \<open>One turn of the \<open>while (stack.length)\<close> loop, for a non-empty stack.\<close>

definition patch_iter :: "nat \<Rightarrow> env \<Rightarrow> walk \<Rightarrow> (error + walk) option" where
  "patch_iter n E w =
     (case stack w of
        [] \<Rightarrow> Some (Inr w)
      | next # rest \<Rightarrow>
          if \<not> parsed next
          then (case patchComponent n E (ctxt next) (newElement next) (oldElement next) (elems w) of
                  None \<Rightarrow> None
                | Some (context, newEl, oldEl, h1) \<Rightarrow>
                    if newEl = None \<and> oldEl = None
                    then Some (Inr (w\<lparr>stack := rest, elems := h1\<rparr>))
                    else
                      (let h2 = inherit_stem h1 newEl oldEl;
                           d = diff E h2 oldEl newEl
                       in (case (case oldEl of
                                   None \<Rightarrow> Inr ()
                                 | Some oe \<Rightarrow>
                                     invariant (dom_ref (h2 oe) = None)
                                       ''Dom element was accidentally removed.'') of
                             Inl e \<Rightarrow> Some (Inl e)
                           | Inr _ \<Rightarrow>
                               Some (expand_children context oldEl
                                       (parsed_frame next context newEl oldEl h2 d) rest
                                       (w\<lparr>batchs := batchs w @
                                            [batch_entry w next context newEl oldEl h2 d],
                                          elems := h2\<rparr>)))))
          else Some (expand_children (ctxt next) (oldElement next) next rest w))"

text \<open>The loop, with fuel for its turns (an element store may hold a cyclic tree).\<close>

fun patch_loop :: "nat \<Rightarrow> env \<Rightarrow> walk \<Rightarrow> (error + walk) option" where
  "patch_loop 0 E w = (if stack w = [] then Some (Inr w) else None)"
| "patch_loop (Suc n) E w =
     (if stack w = [] then Some (Inr w)
      else (case patch_iter (Suc n) E w of
              None \<Rightarrow> None
            | Some (Inl e) \<Rightarrow> Some (Inl e)
            | Some (Inr w') \<Rightarrow> patch_loop n E w'))"

text \<open>The state in which \<open>patch\<close> enters its loop; \<open>oldTree\<close> is \<open>this.tree\<close>.\<close>

definition initial_walk :: "eref option \<Rightarrow> eref option \<Rightarrow> ctxt \<Rightarrow> heap \<Rightarrow> walk" where
  "initial_walk oldTree newTree context h =
     \<lparr>stack = makeInitialStackState context newTree oldTree, parent = None, batchs = [], elems = h\<rparr>"

text \<open>\<open>patch\<close>: a batch left over from an earlier cycle is cleared, then the loop runs.\<close>

definition patch :: "nat \<Rightarrow> env \<Rightarrow> eref option \<Rightarrow> eref option \<Rightarrow> ctxt \<Rightarrow> heap \<Rightarrow> (error + walk) option" where
  "patch n E oldTree newTree context h = patch_loop n E (initial_walk oldTree newTree context h)"

subsection \<open>Reachable walker states\<close>

text \<open>
  \<open>reaches E w0 w\<close>: the loop of \<open>patch\<close>, started in \<open>w0\<close>, is in state \<open>w\<close> at the
  head of some turn.
\<close>

inductive reaches :: "env \<Rightarrow> walk \<Rightarrow> walk \<Rightarrow> bool" for E :: env and w0 :: walk where
  start: "reaches E w0 w0"
| turn: "reaches E w0 w \<Longrightarrow> stack w \<noteq> [] \<Longrightarrow> patch_iter n E w = Some (Inr w') \<Longrightarrow> reaches E w0 w'"


text \<open>
  Every key index of \<open>h'\<close> is the one \<open>h\<close> has, or is new; a new one is an object
  \<open>{}\<close> with one own entry, under a key other than \<open>__proto__\<close>, or an object with no
  own entry whose prototype is a child.
\<close>

definition keymaps_grow :: "heap \<Rightarrow> heap \<Rightarrow> bool" where
  "keymaps_grow h h' =
     (\<forall>e. keymap (h' e) = keymap (h e) \<or>
          (keymap (h e) = None \<and>
           ((\<exists>k c. k \<noteq> ''__proto__'' \<and>
                   keymap (h' e) = Some \<lparr>own = [(k, c)], proto = ObjectPrototype\<rparr>) \<or>
            (\<exists>c. keymap (h' e) = Some \<lparr>own = [], proto = ElementPrototype c\<rparr>))))"

subsection \<open>The pairing policy in the words of the specification\<close>

text \<open>
  Section 4.2 of the specification: (a) if the parent's old element carries a key index
  and the popped new child has a key present in that index, the paired old child is the
  keyed match and, if it is still in the old-children queue, it is spliced out and the
  pairing is flagged keyed; if the match was already consumed, the pairing degrades to the
  positional one; (b) otherwise the next old child is dequeued. The index is a JavaScript
  object: a key is present in it, with a child as its match, when reading the key from the
  index gives an element.
\<close>

definition spec_keyed_match :: "heap \<Rightarrow> frame option \<Rightarrow> eref option \<Rightarrow> eref option" where
  "spec_keyed_match h parentState newChild =
     (case parentState of
        None \<Rightarrow> None
      | Some ps \<Rightarrow>
          (case oldElement ps of
             None \<Rightarrow> None
           | Some po \<Rightarrow>
               (case keymap (h po) of
                  None \<Rightarrow> None
                | Some index \<Rightarrow>
                    (case newChild of
                       None \<Rightarrow> None
                     | Some nc \<Rightarrow>
                         (case get_property h index (key (h nc)) of
                            Elem oc \<Rightarrow> Some oc
                          | _ \<Rightarrow> None)))))"

definition spec_positional :: "eref option list \<Rightarrow> eref option \<times> bool \<times> eref option list" where
  "spec_positional ocs = (case ocs of [] \<Rightarrow> (None, False, []) | x # r \<Rightarrow> (x, False, r))"

definition spec_pairing ::
  "heap \<Rightarrow> frame option \<Rightarrow> eref option \<Rightarrow> eref option list \<Rightarrow> eref option \<times> bool \<times> eref option list" where
  "spec_pairing h parentState newChild ocs =
     (case spec_keyed_match h parentState newChild of
        None \<Rightarrow> spec_positional ocs
      | Some oc \<Rightarrow>
          if Some oc \<in> set ocs then (Some oc, True, remove1 (Some oc) ocs)
          else spec_positional ocs)"

subsection \<open>A small tree for concrete runs\<close>

text \<open>
  The old tree is a \<open>div\<close> (element 1, native node 101, owned by stem 7) with two keyed
  \<open>span\<close> children (2 with key a, 3 with key b) and a key index; the new tree is a
  \<open>div\<close> (11) whose children are 13 (key b) and 12 (key a). Element 21 is an old
  element whose native node is gone. Elements 14 and 15 are children whose keys are
  \<open>__proto__\<close> and \<open>constructor\<close>, and 16 is a new \<open>div\<close> whose children are 13
  and 14.
\<close>

definition blank :: element where
  "blank = \<lparr>etype = ''div'', children = [], key = ''undefined'', dom_ref = None,
            stem_ref = None, keymap = None, unmounted = False, ownerElement = None,
            componentInstance = None, others = []\<rparr>"

definition ex_heap :: heap where
  "ex_heap = (\<lambda>_. blank)
     (1 := blank\<lparr>children := [Some 2, Some 3], dom_ref := Some 101, stem_ref := Some 7,
                keymap := Some \<lparr>own = [(''a'', 2), (''b'', 3)], proto = ObjectPrototype\<rparr>\<rparr>,
      2 := blank\<lparr>etype := ''span'', key := ''a'', dom_ref := Some 102\<rparr>,
      3 := blank\<lparr>etype := ''span'', key := ''b'', dom_ref := Some 103\<rparr>,
      11 := blank\<lparr>children := [Some 13, Some 12]\<rparr>,
      12 := blank\<lparr>etype := ''span'', key := ''a''\<rparr>,
      13 := blank\<lparr>etype := ''span'', key := ''b''\<rparr>,
      14 := blank\<lparr>etype := ''span'', key := ''__proto__''\<rparr>,
      15 := blank\<lparr>etype := ''span'', key := ''constructor''\<rparr>,
      16 := blank\<lparr>children := [Some 13, Some 14]\<rparr>,
      21 := blank\<lparr>etype := ''p''\<rparr>)"

text \<open>
  Collaborators for the runs: no element is a component, and the difference is
  \<open>1\<close> for a new element, \<open>2\<close> for a removed one, \<open>REPLACE_ELEMENT\<close> when the
  types differ and \<open>0\<close> otherwise.
\<close>

definition ex_diff :: "heap \<Rightarrow> eref option \<Rightarrow> eref option \<Rightarrow> Difference" where
  "ex_diff h oldEl newEl =
     (case oldEl of
        None \<Rightarrow> \<lparr>flags = 1, attr = []\<rparr>
      | Some oe \<Rightarrow>
          (case newEl of
             None \<Rightarrow> \<lparr>flags = 2, attr = []\<rparr>
           | Some ne \<Rightarrow>
               if etype (h oe) \<noteq> etype (h ne) then \<lparr>flags = REPLACE_ELEMENT, attr = []\<rparr>
               else \<lparr>flags = 0, attr = []\<rparr>))"

definition ex_env :: env where
  "ex_env = \<lparr>isComponent = (\<lambda>h e. False),
             instantiateComponent = (\<lambda>c e oldEl h. ((None, c), h)),
             getComponentRenderedTree = (\<lambda>h e. None),
             stripComponent = (\<lambda>h e. Some e),
             diff = ex_diff\<rparr>"

definition ex_frame :: "eref option \<Rightarrow> eref option \<Rightarrow> frame" where
  "ex_frame newEl oldEl =
     \<lparr>ctxt = [], newElement = newEl, oldElement = oldEl, newChildren = None,
      oldChildren = None, parsed = False, difference = None, root = Some 11,
      isKeyedItem = False\<rparr>"

definition ex_parent :: frame where
  "ex_parent = (ex_frame (Some 11) (Some 1))
     \<lparr>newChildren := Some [Some 13, Some 12], oldChildren := Some [Some 2, Some 3],
      parsed := True, difference := Some \<lparr>flags = 0, attr = []\<rparr>\<rparr>"

text \<open>A walker state whose stack holds one unparsed frame pairing the two elements.\<close>

definition ex_walk :: "eref option \<Rightarrow> eref option \<Rightarrow> walk" where
  "ex_walk newEl oldEl =
     \<lparr>stack = [ex_frame newEl oldEl], parent = None, batchs = [], elems = ex_heap\<rparr>"

section \<open>The batch applier\<close>

subsection \<open>The native tree\<close>

text \<open>
  The native tree belongs to the host (a browser DOM), not to the repository. The model
  keeps, for each native node, what stem.ts reads: \<open>nodeType\<close>, the child nodes, the
  parent and the text. \<open>children_of\<close> is the live \<open>children\<close> collection of a node: its
  child nodes that are elements (\<open>nodeType\<close> 1).
\<close>

record dnode =
  nodeType :: nat
  childNodes :: "dref list"
  parentNode :: "dref option"
  textContent :: string

type_synonym nodes = "dref \<Rightarrow> dnode"

definition children_of :: "nodes \<Rightarrow> dref \<Rightarrow> dref list" where
  "children_of d n = filter (\<lambda>c. nodeType (d c) = 1) (childNodes (d n))"

text \<open>
  The three mutators follow the DOM standard on a well-formed tree: a node that is
  inserted is first taken out of the child list that holds it; \<open>removeChild\<close> and
  \<open>replaceChild\<close> throw NotFoundError when the node named is not a child of the receiver;
  inserting a node into itself throws HierarchyRequestError, which \<open>replaceChild\<close> tests
  first.
\<close>

definition detach :: "nodes \<Rightarrow> dref \<Rightarrow> nodes" where
  "detach d c = (\<lambda>n. (d n)\<lparr>childNodes := remove1 c (childNodes (d n))\<rparr>)"

definition dom_appendChild :: "nodes \<Rightarrow> dref \<Rightarrow> dref \<Rightarrow> error + nodes" where
  "dom_appendChild d p c =
     (if p = c then Inl HierarchyRequestError
      else (let d1 = detach d c;
                d2 = d1(p := (d1 p)\<lparr>childNodes := childNodes (d1 p) @ [c]\<rparr>)
            in Inr (d2(c := (d2 c)\<lparr>parentNode := Some p\<rparr>))))"

definition dom_removeChild :: "nodes \<Rightarrow> dref \<Rightarrow> dref \<Rightarrow> error + nodes" where
  "dom_removeChild d p c =
     (if c \<notin> set (childNodes (d p)) then Inl NotFoundError
      else (let d1 = d(p := (d p)\<lparr>childNodes := remove1 c (childNodes (d p))\<rparr>)
            in Inr (d1(c := (d1 c)\<lparr>parentNode := None\<rparr>))))"

definition dom_replaceChild :: "nodes \<Rightarrow> dref \<Rightarrow> dref \<Rightarrow> dref \<Rightarrow> error + nodes" where
  "dom_replaceChild d p newChild oldChild =
     (if p = newChild then Inl HierarchyRequestError
      else if oldChild \<notin> set (childNodes (d p)) then Inl NotFoundError
      else if newChild = oldChild then Inr d
      else (let d1 = detach d newChild;
                d2 = d1(p := (d1 p)\<lparr>childNodes :=
                       map (\<lambda>x. if x = oldChild then newChild else x) (childNodes (d1 p))\<rparr>);
                d3 = d2(oldChild := (d2 oldChild)\<lparr>parentNode := None\<rparr>)
            in Inr (d3(newChild := (d3 newChild)\<lparr>parentNode := Some p\<rparr>))))"

subsection \<open>State, calls and collaborators\<close>

text \<open>
  The applier works on the element store and the native tree, and calls collaborators.
  Every call that leaves stem.ts is recorded, in order, in \<open>calls\<close>: lifecycle hooks run
  user code whose own effects are outside the model, so for them the record is all there
  is; the native mutators are recorded and applied to the tree.
\<close>

datatype call =
    InvokeDidMount "eref option"
  | InvokeWillUnmount "eref option"
  | InvokeDidUpdate "eref option"
  | FastCreateDomTree ctxt "eref option" "eref option"
  | CreateDomElement "eref option" "eref option"
  | AttachFuelElementToNode "dref option" eref
  | AppendChild dref dref
  | RemoveChild dref dref
  | ReplaceChild dref dref dref
  | SetTextContent dref string
  | SetProperty dref string attr_value
  | RemoveAttribute dref string
  | SetStyle "dref option" string string
  | ReplaceEvent nat "dref option" string attr_value
  | RemoveEvent nat "dref option" string
  | UpdateId
  | CleanupTree "eref option"
  | Callback nat "dref option"

record world =
  w_elems :: heap
  nodes :: nodes

record applier =
  wld :: world
  calls :: "call list"

text \<open>
  The collaborators of the applier, parameters of the model: the predicates of
  difference.ts on a difference, the two builders of native nodes (they return the node
  and may change store and tree), the text of an element, the table \<open>DOMEvents\<close>, and
  the shared event handler a stem returns from \<open>getEventHandler\<close>.
\<close>

record aenv = env +
  isNewElement :: "Difference \<Rightarrow> bool"
  isRemoveElement :: "Difference \<Rightarrow> bool"
  isReplaceElement :: "Difference \<Rightarrow> bool"
  isTextChanged :: "Difference \<Rightarrow> bool"
  isCreateChildren :: "Difference \<Rightarrow> bool"
  fastCreateDomTree :: "ctxt \<Rightarrow> eref option \<Rightarrow> eref option \<Rightarrow> world \<Rightarrow> dref \<times> world"
  createDomElement :: "eref option \<Rightarrow> eref option \<Rightarrow> world \<Rightarrow> dref \<times> world"
  getTextValueOf :: "heap \<Rightarrow> eref \<Rightarrow> string"
  DOMEvents :: "string \<Rightarrow> bool"
  getEventHandler :: "sref \<Rightarrow> nat option"

subsection \<open>Results\<close>

text \<open>
  A step of the applier returns a state, throws, or does not return; the last is
  \<open>None\<close>. \<open>bindE\<close> and \<open>bindR\<close> sequence two steps.
\<close>

definition bindE :: "error + 'a \<Rightarrow> ('a \<Rightarrow> error + 'b) \<Rightarrow> error + 'b" where
  "bindE m f = (case m of Inl e \<Rightarrow> Inl e | Inr x \<Rightarrow> f x)"

definition bindR :: "(error + 'a) option \<Rightarrow> ('a \<Rightarrow> (error + 'b) option) \<Rightarrow> (error + 'b) option" where
  "bindR m f = (case m of None \<Rightarrow> None | Some (Inl e) \<Rightarrow> Some (Inl e) | Some (Inr x) \<Rightarrow> f x)"

text \<open>\<open>e.dom\<close> for an element reference that may be \<open>null\<close>, and the receiver of a method call.\<close>

definition dom_of :: "applier \<Rightarrow> eref option \<Rightarrow> error + dref option" where
  "dom_of s e = (case e of None \<Rightarrow> Inl TypeError | Some x \<Rightarrow> Inr (dom_ref (w_elems (wld s) x)))"

definition receiver :: "dref option \<Rightarrow> error + dref" where
  "receiver n = (case n of None \<Rightarrow> Inl TypeError | Some x \<Rightarrow> Inr x)"

definition record_call :: "call \<Rightarrow> applier \<Rightarrow> applier" where
  "record_call c s = s\<lparr>calls := calls s @ [c]\<rparr>"

definition set_nodes :: "nodes \<Rightarrow> applier \<Rightarrow> applier" where
  "set_nodes d s = s\<lparr>wld := (wld s)\<lparr>nodes := d\<rparr>\<rparr>"

definition set_elems :: "heap \<Rightarrow> applier \<Rightarrow> applier" where
  "set_elems h s = s\<lparr>wld := (wld s)\<lparr>w_elems := h\<rparr>\<rparr>"

definition appendChild :: "dref \<Rightarrow> dref \<Rightarrow> applier \<Rightarrow> error + applier" where
  "appendChild p c s =
     bindE (dom_appendChild (nodes (wld s)) p c)
       (\<lambda>d. Inr (record_call (AppendChild p c) (set_nodes d s)))"

definition removeChild :: "dref \<Rightarrow> dref \<Rightarrow> applier \<Rightarrow> error + applier" where
  "removeChild p c s =
     bindE (dom_removeChild (nodes (wld s)) p c)
       (\<lambda>d. Inr (record_call (RemoveChild p c) (set_nodes d s)))"

definition replaceChild :: "dref \<Rightarrow> dref \<Rightarrow> dref \<Rightarrow> applier \<Rightarrow> error + applier" where
  "replaceChild p newChild oldChild s =
     bindE (dom_replaceChild (nodes (wld s)) p newChild oldChild)
       (\<lambda>d. Inr (record_call (ReplaceChild p newChild oldChild) (set_nodes d s)))"

subsection \<open>replaceElement\<close>

text \<open>
  The loop \<open>while (children.length) { newDom.appendChild(children[0]); }\<close> over the live
  collection \<open>oldDom.children\<close>. Each turn moves the first element child of the old node
  to the new one, so the collection shrinks, except when the two nodes are the same: then
  the child goes back to the end of the same collection and the loop never ends, which is
  the result \<open>None\<close>.
\<close>

function splice_children :: "dref \<Rightarrow> dref \<Rightarrow> applier \<Rightarrow> (error + applier) option" where
  "splice_children oldDom newDom s =
     (case children_of (nodes (wld s)) oldDom of
        [] \<Rightarrow> Some (Inr s)
      | c # cs \<Rightarrow>
          if oldDom = newDom then None
          else (case appendChild newDom c s of
                  Inl e \<Rightarrow> Some (Inl e)
                | Inr s' \<Rightarrow> splice_children oldDom newDom s'))"
  by pat_completeness auto
termination
proof (relation "measure (\<lambda>(oldDom, newDom, s). length (children_of (nodes (wld s)) oldDom))")
  show "wf (measure (\<lambda>(oldDom, newDom, s). length (children_of (nodes (wld s)) oldDom)))"
    by simp
next
  fix oldDom newDom :: dref and s s' :: applier and c :: dref and cs :: "dref list"
  assume ch: "children_of (nodes (wld s)) oldDom = c # cs" and ne: "oldDom \<noteq> newDom"
    and ap: "appendChild newDom c s = Inr s'"
  have head: "filter P xs = c # cs \<Longrightarrow> filter P (remove1 c xs) = cs"
    for P and xs :: "dref list"
  proof (induction xs)
    case Nil
    then show ?case by simp
  next
    case (Cons x xs)
    from Cons.prems have "c \<in> set (filter P (x # xs))" by (simp only: list.set_intros)
    then have "P c" by (simp only: set_filter mem_Collect_eq)
    with Cons show ?case by (cases "P x") (auto split: if_splits)
  qed
  from ap obtain d' where d: "dom_appendChild (nodes (wld s)) newDom c = Inr d'"
    and s': "nodes (wld s') = d'"
    by (auto simp: appendChild_def bindE_def record_call_def set_nodes_def split: sum.splits)
  from d have nc: "newDom \<noteq> c"
    by (auto simp: dom_appendChild_def split: if_splits)
  with d have nt: "\<And>x. nodeType (d' x) = nodeType (nodes (wld s) x)"
    by (auto simp: dom_appendChild_def detach_def Let_def split: if_splits)
  from ne d nc have "childNodes (d' oldDom) = remove1 c (childNodes (nodes (wld s) oldDom))"
    by (auto simp: dom_appendChild_def detach_def Let_def split: if_splits)
  with nt ch have "children_of d' oldDom = cs"
    by (simp add: children_of_def head)
  with s' ch
  show "((oldDom, newDom, s'), (oldDom, newDom, s))
          \<in> measure (\<lambda>(oldDom, newDom, s). length (children_of (nodes (wld s)) oldDom))"
    by simp
qed

declare splice_children.simps [simp del]

definition replaceElement ::
  "aenv \<Rightarrow> eref option \<Rightarrow> eref option \<Rightarrow> eref option \<Rightarrow> eref option \<Rightarrow> bool \<Rightarrow> applier \<Rightarrow> (error + applier) option" where
  "replaceElement A rootEl parentEl oldEl newEl isKeyedItems s =
     (case createDomElement A rootEl newEl (wld s) of
        (newDom, w1) \<Rightarrow>
     (let s1 = record_call (CreateDomElement rootEl newEl) (s\<lparr>wld := w1\<rparr>)
      in (case bindE (dom_of s1 oldEl) receiver of
            Inl e \<Rightarrow> Some (Inl e)
          | Inr oldDom \<Rightarrow>
              bindR (if nodeType (nodes w1 oldDom) = 1 \<and> nodeType (nodes w1 newDom) = 1
                     then splice_children oldDom newDom s1
                     else Some (Inr s1))
                (\<lambda>s2. Some (bindE (dom_of s2 parentEl)
                        (\<lambda>parentDom.
                           if \<not> isKeyedItems
                           then bindE (receiver parentDom)
                                  (\<lambda>pd. replaceChild pd newDom oldDom s2)
                           else bindE (receiver parentDom)
                                  (\<lambda>pd. bindE (removeChild pd oldDom s2)
                                           (appendChild pd newDom))))))))"

subsection \<open>copyElementRef and updateElement\<close>

definition copyElementRef ::
  "eref option \<Rightarrow> eref option \<Rightarrow> eref option \<Rightarrow> bool \<Rightarrow> applier \<Rightarrow> error + applier" where
  "copyElementRef rootEl oldEl newEl isKeyed s =
     (case newEl of
        None \<Rightarrow> Inl TypeError
      | Some ne \<Rightarrow>
          bindE (dom_of s oldEl)
            (\<lambda>od. (let h = w_elems (wld s);
                       s1 = set_elems (h(ne := (h ne)\<lparr>dom_ref := od\<rparr>)) s;
                       s2 = record_call (AttachFuelElementToNode od ne) s1
                   in if isKeyed
                      then bindE (receiver od)
                             (\<lambda>n. bindE (receiver (parentNode (nodes (wld s2) n)))
                                    (\<lambda>pn. appendChild pn n s2))
                      else Inr s2)))"

text \<open>\<open>key.slice(2).toLowerCase()\<close>, on ASCII letters.\<close>

definition toLowerCase :: "string \<Rightarrow> string" where
  "toLowerCase str =
     map (\<lambda>c. (let n = (of_char c :: nat) in if 65 \<le> n \<and> n \<le> 90 then char_of (n + 32) else c)) str"

definition lowerKey :: "string \<Rightarrow> string" where
  "lowerKey k = toLowerCase (drop 2 k)"

text \<open>The decimal name of an array index, for \<open>for (const style in value)\<close> over a string.\<close>

fun index_name :: "nat \<Rightarrow> string" where
  "index_name n =
     (if n < 10 then [char_of (48 + n)] else index_name (n div 10) @ [char_of (48 + n mod 10)])"

text \<open>The property names and values that \<open>for (const style in value)\<close> visits.\<close>

definition enumerable :: "attr_value \<Rightarrow> (string \<times> string) list" where
  "enumerable v =
     (case v of
        Styles kvs \<Rightarrow> kvs
      | Plain str \<Rightarrow> map (\<lambda>i. (index_name i, [str ! i])) [0 ..< length str]
      | Handler f \<Rightarrow> [])"

text \<open>\<open>strippedRoot._stem.getEventHandler()\<close>, the receiver of \<open>replaceEvent\<close> and \<open>removeEvent\<close>.\<close>

definition event_handler :: "aenv \<Rightarrow> applier \<Rightarrow> eref option \<Rightarrow> error + nat" where
  "event_handler A s strippedRoot =
     (case strippedRoot of
        None \<Rightarrow> Inl TypeError
      | Some r \<Rightarrow>
          (case stem_ref (w_elems (wld s) r) of
             None \<Rightarrow> Inl TypeError
           | Some st \<Rightarrow>
               (case getEventHandler A st of None \<Rightarrow> Inl TypeError | Some eh \<Rightarrow> Inr eh)))"

text \<open>One turn of the loop of \<open>updateElement\<close> over \<open>diff.attr\<close>.\<close>

definition update_attr ::
  "aenv \<Rightarrow> eref option \<Rightarrow> dref option \<Rightarrow> attr_change \<Rightarrow> applier \<Rightarrow> error + applier" where
  "update_attr A strippedRoot domElement a s =
     (case a_state a of
        STYLE_CHANGED \<Rightarrow>
          Inr (fold (\<lambda>(style, val). record_call (SetStyle domElement style val))
                 (enumerable (a_value a)) s)
      | REMOVED \<Rightarrow>
          if DOMEvents A (a_key a)
          then bindE (event_handler A s strippedRoot)
                 (\<lambda>eh. Inr (record_call (RemoveEvent eh domElement (lowerKey (a_key a))) s))
          else bindE (receiver domElement)
                 (\<lambda>n. Inr (record_call (RemoveAttribute n (a_key a)) s))
      | UNCHANGED \<Rightarrow> Inr s
      | _ \<Rightarrow>
          \<comment> \<open>\<open>AttrState.NEW\<close> and \<open>AttrState.REPLACED\<close>\<close>
          if DOMEvents A (a_key a)
          then bindE (event_handler A s strippedRoot)
                 (\<lambda>eh. Inr (record_call
                              (ReplaceEvent eh domElement (lowerKey (a_key a)) (a_value a)) s))
          else bindE (receiver domElement)
                 (\<lambda>n. Inr (record_call (SetProperty n (a_key a) (a_value a)) s)))"

fun update_attrs ::
  "aenv \<Rightarrow> eref option \<Rightarrow> dref option \<Rightarrow> attr_change list \<Rightarrow> applier \<Rightarrow> error + applier" where
  "update_attrs A strippedRoot domElement [] s = Inr s"
| "update_attrs A strippedRoot domElement (a # as) s =
     bindE (update_attr A strippedRoot domElement a s) (update_attrs A strippedRoot domElement as)"

definition updateElement ::
  "aenv \<Rightarrow> Difference \<Rightarrow> eref option \<Rightarrow> eref option \<Rightarrow> applier \<Rightarrow> error + applier" where
  "updateElement A d rootElement newEl s =
     bindE (dom_of s newEl)
       (\<lambda>domElement.
          update_attrs A
            (case rootElement of None \<Rightarrow> None | Some r \<Rightarrow> stripComponent A (w_elems (wld s)) r)
            domElement (attr d) s)"

subsection \<open>update\<close>

text \<open>A call of \<open>fastCreateDomTree\<close>: the node built and the state after the call.\<close>

definition build_tree :: "aenv \<Rightarrow> ctxt \<Rightarrow> eref option \<Rightarrow> eref option \<Rightarrow> applier \<Rightarrow> dref \<times> applier" where
  "build_tree A context rootEl newEl s =
     (case fastCreateDomTree A context rootEl newEl (wld s) of
        (tree, w1) \<Rightarrow> (tree, record_call (FastCreateDomTree context rootEl newEl) (s\<lparr>wld := w1\<rparr>)))"

text \<open>The dispatch on the difference of one batch entry, before the test of \<open>isCreateChildren\<close>.\<close>

definition primary_action :: "aenv \<Rightarrow> batch \<Rightarrow> applier \<Rightarrow> (error + applier) option" where
  "primary_action A b s =
     (if isNewElement A (b_difference b) then
        (case b_parent b of
           Some pe \<Rightarrow>
             Some (bindE (bindE (dom_of s (b_parent b)) receiver)
                     (\<lambda>pd. (case build_tree A (b_ctxt b) (b_root b) (b_newElement b) s of
                               (tree, s1) \<Rightarrow>
                                 bindE (appendChild pd tree s1)
                                   (\<lambda>s2. Inr (record_call (InvokeDidMount (b_newElement b)) s2)))))
         | None \<Rightarrow>
             (case build_tree A (b_ctxt b) (b_root b) (b_newElement b) s of
                (tree, s1) \<Rightarrow>
                  (case b_oldElement b of
                     Some oe \<Rightarrow>
                       Some (bindE (bindE (dom_of s1 (b_parent b)) receiver)
                               (\<lambda>pd. bindE (appendChild pd tree s1)
                                  (\<lambda>s2. Inr (record_call (InvokeWillUnmount (b_oldElement b))
                                               (record_call (InvokeDidMount (b_newElement b)) s2)))))
                   | None \<Rightarrow> Some (Inr s1))))
      else if isRemoveElement A (b_difference b) then
        (let s1 = record_call (InvokeWillUnmount (b_oldElement b)) s
         in Some (bindE (bindE (dom_of s1 (b_oldElement b)) receiver)
                    (\<lambda>od. bindE (receiver (parentNode (nodes (wld s1) od)))
                       (\<lambda>pn. bindE (removeChild pn od s1)
                          (\<lambda>s2. (case b_oldElement b of
                                    None \<Rightarrow> Inl TypeError
                                  | Some oe \<Rightarrow>
                                      (let h = w_elems (wld s2)
                                       in Inr (set_elems (h(oe := (h oe)\<lparr>stem_ref := None\<rparr>)) s2))))))))
      else if isReplaceElement A (b_difference b) then
        bindR (replaceElement A (b_root b) (b_parent b) (b_oldElement b) (b_newElement b)
                 (b_isKeyedItem b) (record_call (InvokeWillUnmount (b_oldElement b)) s))
          (\<lambda>s2. Some (Inr (record_call (InvokeDidMount (b_newElement b)) s2)))
      else if isTextChanged A (b_difference b) then
        (case b_newElement b of
           None \<Rightarrow> Some (Inl TypeError)
         | Some ne \<Rightarrow>
             Some (bindE (dom_of s (b_oldElement b))
                     (\<lambda>od. (let h = w_elems (wld s);
                                s1 = set_elems (h(ne := (h ne)\<lparr>dom_ref := od\<rparr>)) s;
                                s2 = record_call (AttachFuelElementToNode od ne) s1
                            in bindE (receiver od)
                                 (\<lambda>n. (let txt = getTextValueOf A (w_elems (wld s2)) ne;
                                           d = nodes (wld s2);
                                           s3 = record_call (SetTextContent n txt)
                                                  (set_nodes (d(n := (d n)\<lparr>textContent := txt\<rparr>)) s2)
                                       in Inr (record_call (InvokeDidUpdate (b_newElement b)) s3)))))))
      else
        Some (bindE (copyElementRef (b_root b) (b_oldElement b) (b_newElement b) (b_isKeyedItem b) s)
                (\<lambda>s1. bindE (updateElement A (b_difference b) (b_root b) (b_newElement b) s1)
                   (\<lambda>s2. Inr (record_call (InvokeDidUpdate (b_newElement b)) s2)))))"

text \<open>The body of the loop of \<open>update\<close> for one entry, and the loop.\<close>

definition update_entry :: "aenv \<Rightarrow> batch \<Rightarrow> applier \<Rightarrow> (error + applier) option" where
  "update_entry A b s =
     bindR (primary_action A b s)
       (\<lambda>s1. if isCreateChildren A (b_difference b)
             then Some (Inr (snd (build_tree A (b_ctxt b) (b_root b) (b_newElement b) s1)))
             else Some (Inr s1))"

fun update :: "aenv \<Rightarrow> batch list \<Rightarrow> applier \<Rightarrow> (error + applier) option" where
  "update A [] s = Some (Inr s)"
| "update A (b # bs) s = bindR (update_entry A b s) (update A bs)"

subsection \<open>A native tree and collaborators for concrete runs\<close>

text \<open>
  Native node 100 holds 101, the node of the old root; 101 holds the nodes 102 and 103 of
  its two children; 102 holds a text node 104 and an element 105. The new root 11 has taken
  over node 101. \<open>createDomElement\<close> returns node 200 and \<open>fastCreateDomTree\<close> node 300,
  both elements without parent. A difference is a new element when its flags are 1, a
  removal when 2, a text change when 4, a replacement when \<open>REPLACE_ELEMENT\<close>.
\<close>

definition blank_node :: dnode where
  "blank_node = \<lparr>nodeType = 1, childNodes = [], parentNode = None, textContent = ''''\<rparr>"

definition ex_nodes :: nodes where
  "ex_nodes = (\<lambda>_. blank_node)
     (100 := blank_node\<lparr>childNodes := [101]\<rparr>,
      101 := blank_node\<lparr>childNodes := [102, 103], parentNode := Some 100\<rparr>,
      102 := blank_node\<lparr>childNodes := [104, 105], parentNode := Some 101\<rparr>,
      103 := blank_node\<lparr>parentNode := Some 101\<rparr>,
      104 := blank_node\<lparr>nodeType := 3, parentNode := Some 102\<rparr>,
      105 := blank_node\<lparr>parentNode := Some 102\<rparr>)"

definition ex_applier :: applier where
  "ex_applier =
     \<lparr>wld = \<lparr>w_elems = ex_heap(11 := (ex_heap 11)\<lparr>dom_ref := Some 101\<rparr>), nodes = ex_nodes\<rparr>,
      calls = []\<rparr>"

definition ex_aenv :: aenv where
  "ex_aenv = \<lparr>isComponent = (\<lambda>h e. False),
              instantiateComponent = (\<lambda>c e oldEl h. ((None, c), h)),
              getComponentRenderedTree = (\<lambda>h e. None),
              stripComponent = (\<lambda>h e. Some e),
              diff = ex_diff,
              isNewElement = (\<lambda>d. flags d = 1),
              isRemoveElement = (\<lambda>d. flags d = 2),
              isReplaceElement = (\<lambda>d. flags d = REPLACE_ELEMENT),
              isTextChanged = (\<lambda>d. flags d = 4),
              isCreateChildren = (\<lambda>d. False),
              fastCreateDomTree = (\<lambda>c r e w. (300, w)),
              createDomElement = (\<lambda>r e w. (200, w)),
              getTextValueOf = (\<lambda>h e. ''''),
              DOMEvents = (\<lambda>k. False),
              getEventHandler = (\<lambda>st. None)\<rparr>"

definition ex_batch :: "eref option \<Rightarrow> eref option \<Rightarrow> eref option \<Rightarrow> bool \<Rightarrow> nat \<Rightarrow> batch" where
  "ex_batch parentEl newEl oldEl keyed fl =
     \<lparr>b_root = Some 11, b_parent = parentEl, b_newElement = newEl, b_oldElement = oldEl,
      b_isKeyedItem = keyed, b_difference = \<lparr>flags = fl, attr = []\<rparr>, b_ctxt = []\<rparr>"

section \<open>FuelStem: render, its lock and its queue\<close>

text \<open>
  A call of \<open>render\<close>: the element, the callback (a user function, named by a number),
  the context and \<open>updateOwnwer\<close>. The last two are optional in the source, with defaults
  \<open>{}\<close> and \<open>true\<close>.
\<close>

record request =
  r_el :: "eref option"
  r_cb :: nat
  r_context :: ctxt
  r_updateOwner :: bool

text \<open>
  What happens at the stem, in order. \<open>Requested\<close> is user code calling \<open>render\<close>,
  with the four arguments of the call; it is noted by the caller, before the stem does
  anything. The others are what the stem itself does: it takes the lock for a cycle (with
  the element, context and \<open>updateOwnwer\<close> of the cycle), applies the batch, cleans the
  old tree up, calls back, releases the lock, queues a request, takes a request from the
  queue, and attaches a first tree.
\<close>

datatype stem_event =
    Requested "eref option" nat ctxt bool
  | Locked "eref option" ctxt bool
  | Applied
  | Cleaned "eref option"
  | CalledBack nat
  | Unlocked
  | Queued "eref option" nat
  | Replayed "eref option" nat
  | AttachedTree "eref option"

text \<open>
  The fields of \<open>FuelStem\<close>; \<open>batchCallback\<close> is the closure \<open>render\<close> stores, which has
  captured \<open>old\<close> and \<open>callback\<close>. \<open>machine\<close> is the element store and native tree the
  stem works on, \<open>journal\<close> the record of what the stem did.
\<close>

record stem =
  enabled :: bool
  stem_batchs :: "batch list"
  batchCallback :: "(eref option \<times> nat) option"
  lock :: bool
  renderQueue :: "(eref option \<times> nat) list"
  tree :: "eref option"
  machine :: applier
  journal :: "stem_event list"

text \<open>
  \<open>render\<close> runs synchronously (the call of \<open>requestAnimationFrame\<close> is commented out in
  \<open>renderAtAnimationFrame\<close>), so a call of \<open>render\<close> can only arrive during another one
  from user code that the stem runs: components and lifecycle hooks during the walk and
  during the application of the batch, hooks during \<open>cleanupTree\<close>, and the callback.
  \<open>reenters\<close> gives, for each of these places and for the state the stem is in
  there, the calls of \<open>render\<close> on this stem that the user code makes. Under the lock
  such a call only touches the queue, which neither the walker nor the applier reads, so
  the model lets the calls of one place arrive together, at its end.
\<close>

datatype site =
    DuringPatch "eref option"
  | DuringUpdate "eref option"
  | DuringCleanup "eref option"
  | DuringCallback nat

record senv = aenv +
  reenters :: "site \<Rightarrow> stem \<Rightarrow> request list"

definition note_event :: "stem_event \<Rightarrow> stem \<Rightarrow> stem" where
  "note_event e S = S\<lparr>journal := journal S @ [e]\<rparr>"

definition external :: "call \<Rightarrow> stem \<Rightarrow> stem" where
  "external c S = S\<lparr>machine := record_call c (machine S)\<rparr>"

text \<open>\<open>this.patch(el, context)\<close>: the walker on \<open>this.tree\<close>, leaving its batch in \<open>this.batchs\<close>.\<close>

definition run_patch :: "nat \<Rightarrow> senv \<Rightarrow> eref option \<Rightarrow> ctxt \<Rightarrow> stem \<Rightarrow> (error + stem) option" where
  "run_patch n X el context S =
     bindR (patch n (env.truncate X) (tree S) el context (w_elems (wld (machine S))))
       (\<lambda>w. Some (Inr (S\<lparr>stem_batchs := batchs w,
                          machine := set_elems (elems w) (machine S)\<rparr>)))"

text \<open>\<open>update(this.batchs)\<close>\<close>

definition run_update :: "senv \<Rightarrow> stem \<Rightarrow> (error + stem) option" where
  "run_update X S =
     bindR (update (aenv.truncate X) (stem_batchs S) (machine S))
       (\<lambda>m. Some (Inr (note_event Applied (S\<lparr>machine := m\<rparr>))))"

text \<open>\<open>this.tree.dom\<close>\<close>

definition tree_dom :: "stem \<Rightarrow> error + dref option" where
  "tree_dom S = dom_of (machine S) (tree S)"

text \<open>\<open>attach\<close>: the tree is built with an empty context, and recorded as owned if asked.\<close>

definition attach :: "senv \<Rightarrow> eref option \<Rightarrow> bool \<Rightarrow> stem \<Rightarrow> dref \<times> stem" where
  "attach X el updateOwner S =
     (case build_tree (aenv.truncate X) [] el el (machine S) of
        (domTree, m) \<Rightarrow>
          (domTree, note_event (AttachedTree el)
                      (S\<lparr>machine := m, tree := (if updateOwner then el else tree S)\<rparr>)))"

text \<open>
  The methods that call one another take fuel, one unit for each call, and return
  \<open>None\<close> without it: user code can call \<open>render\<close> from a callback without end.
  \<open>reenter\<close> is user code making its calls of \<open>render\<close> in turn, each noted in the
  journal as it is made; \<open>invoke_batchCallback\<close> is the call
  \<open>this.batchCallback && this.batchCallback()\<close>.
\<close>

fun render :: "nat \<Rightarrow> senv \<Rightarrow> request \<Rightarrow> stem \<Rightarrow> (error + stem) option"
  and reenter :: "nat \<Rightarrow> senv \<Rightarrow> request list \<Rightarrow> stem \<Rightarrow> (error + stem) option"
  and renderAtAnimationFrame :: "nat \<Rightarrow> senv \<Rightarrow> eref option \<Rightarrow> stem \<Rightarrow> (error + stem) option"
  and invoke_batchCallback :: "nat \<Rightarrow> senv \<Rightarrow> stem \<Rightarrow> (error + stem) option"
  and drainRenderQueue :: "nat \<Rightarrow> senv \<Rightarrow> stem \<Rightarrow> (error + stem) option"
where
  "render 0 X r S = None"
| "render (Suc n) X r S =
     (if \<not> enabled S then
        (case tree_dom S of
           Inl e \<Rightarrow> Some (Inl e)
         | Inr d \<Rightarrow>
             (let S1 = note_event (CalledBack (r_cb r)) (external (Callback (r_cb r) d) S)
              in reenter n X (reenters X (DuringCallback (r_cb r)) S1) S1))
      else if lock S then
        Some (Inr (note_event (Queued (r_el r) (r_cb r))
                     (S\<lparr>renderQueue := renderQueue S @ [(r_el r, r_cb r)]\<rparr>)))
      else
        (let S1 = external UpdateId S
         in (case tree S1 of
               Some t \<Rightarrow>
                 bindR (run_patch n X (r_el r) (r_context r)
                          (note_event (Locked (r_el r) (r_context r) (r_updateOwner r))
                             (S1\<lparr>lock := True\<rparr>)))
                   (\<lambda>S2. bindR (reenter n X (reenters X (DuringPatch (r_el r)) S2) S2)
                      (\<lambda>S3. renderAtAnimationFrame n X (r_el r)
                               (S3\<lparr>tree := (if r_updateOwner r then r_el r else tree S3),
                                   batchCallback := Some (tree S3, r_cb r)\<rparr>)))
             | None \<Rightarrow>
                 (case attach X (r_el r) (r_updateOwner r) S1 of
                    (domTree, S2) \<Rightarrow>
                      (let S3 = note_event (CalledBack (r_cb r))
                                  (external (Callback (r_cb r) (Some domTree)) S2)
                       in reenter n X (reenters X (DuringCallback (r_cb r)) S3) S3)))))"
| "reenter n X [] S = Some (Inr S)"
| "reenter 0 X (r # rs) S = None"
| "reenter (Suc n) X (r # rs) S =
     bindR (render n X r
              (note_event (Requested (r_el r) (r_cb r) (r_context r) (r_updateOwner r)) S))
       (reenter n X rs)"
| "renderAtAnimationFrame 0 X el S = None"
| "renderAtAnimationFrame (Suc n) X el S =
     (if stem_batchs S \<noteq> [] then
        bindR (run_update X S)
          (\<lambda>S1. bindR (reenter n X (reenters X (DuringUpdate el) S1) S1)
             (\<lambda>S2. bindR (invoke_batchCallback n X (S2\<lparr>stem_batchs := []\<rparr>))
                (\<lambda>S3. Some (Inr (S3\<lparr>batchCallback := None\<rparr>)))))
      else Some (Inr S))"
| "invoke_batchCallback 0 X S = None"
| "invoke_batchCallback (Suc n) X S =
     (case batchCallback S of
        None \<Rightarrow> Some (Inr S)
      | Some (old, cb) \<Rightarrow>
          (let S0 = note_event (Cleaned old) (external (CleanupTree old) S)
           in bindR (reenter n X (reenters X (DuringCleanup old) S0) S0)
                (\<lambda>S1. (case tree_dom S1 of
                          Inl e \<Rightarrow> Some (Inl e)
                        | Inr d \<Rightarrow>
                            (let S2 = note_event (CalledBack cb) (external (Callback cb d) S1)
                             in bindR (reenter n X (reenters X (DuringCallback cb) S2) S2)
                                  (\<lambda>S3. drainRenderQueue n X
                                           (note_event Unlocked (S3\<lparr>lock := False\<rparr>))))))))"
| "drainRenderQueue 0 X S = None"
| "drainRenderQueue (Suc n) X S =
     (case renderQueue S of
        [] \<Rightarrow> Some (Inr S)
      | (element, cb) # queue \<Rightarrow>
          render n X \<lparr>r_el = element, r_cb = cb, r_context = [], r_updateOwner = True\<rparr>
            (note_event (Replayed element cb) (S\<lparr>renderQueue := queue\<rparr>)))"

subsection \<open>Reading the journal\<close>

text \<open>
  The order of events at the stem, as an automaton over its journal. A call of \<open>render\<close>
  made while no cycle is open (\<open>Idle\<close>, \<open>Released\<close>) must be followed at once by the
  start of a cycle with the arguments of that call (\<open>Asked\<close>); a call made while a
  cycle is open must be followed at once by the queueing of its element and callback
  (\<open>Arriving\<close>, which remembers where the open cycle stands), and starts no cycle.
  Inside a cycle come the application of the batch, the cleanup, the callback and the
  release of the lock, in this order. A request is taken from the queue only right after
  a release, and only one (\<open>Taken\<close>); it must be followed at once by the start of a cycle
  on its element, with the default context and \<open>updateOwnwer\<close>.
\<close>

datatype phase =
    Idle | Released | Taken "eref option" | Asked "eref option" ctxt bool
  | Walked | AppliedP | CleanedP | CalledP
  | Arriving phase "eref option" nat

definition in_flight :: "phase \<Rightarrow> bool" where
  "in_flight p = (p = Walked \<or> p = AppliedP \<or> p = CleanedP \<or> p = CalledP)"

definition advance :: "phase \<Rightarrow> stem_event \<Rightarrow> phase option" where
  "advance p e =
     (case e of
        Requested el cb c u \<Rightarrow>
          (if in_flight p then Some (Arriving p el cb)
           else if p = Idle \<or> p = Released then Some (Asked el c u)
           else None)
      | Locked el c u \<Rightarrow>
          (case p of
             Asked el' c' u' \<Rightarrow> if el = el' \<and> c = c' \<and> u = u' then Some Walked else None
           | Taken el' \<Rightarrow> if el = el' \<and> c = [] \<and> u then Some Walked else None
           | _ \<Rightarrow> None)
      | Applied \<Rightarrow> (if p = Walked then Some AppliedP else None)
      | Cleaned old \<Rightarrow> (if p = AppliedP then Some CleanedP else None)
      | CalledBack cb \<Rightarrow> (if p = CleanedP then Some CalledP else None)
      | Unlocked \<Rightarrow> (if p = CalledP then Some Released else None)
      | Queued el cb \<Rightarrow>
          (case p of
             Arriving p' el' cb' \<Rightarrow>
               if el = el' \<and> cb = cb' \<and> in_flight p' then Some p' else None
           | _ \<Rightarrow> None)
      | Replayed el cb \<Rightarrow> (if p = Released then Some (Taken el) else None)
      | AttachedTree el \<Rightarrow> None)"

fun run_journal :: "phase option \<Rightarrow> stem_event list \<Rightarrow> phase option" where
  "run_journal p [] = p"
| "run_journal p (e # es) =
     run_journal (case p of None \<Rightarrow> None | Some q \<Rightarrow> advance q e) es"

text \<open>The requests queued, and the requests taken from the queue, in the order of the journal.\<close>

fun queued_of :: "stem_event list \<Rightarrow> (eref option \<times> nat) list" where
  "queued_of [] = []"
| "queued_of (Queued el cb # es) = (el, cb) # queued_of es"
| "queued_of (e # es) = queued_of es"

fun replayed_of :: "stem_event list \<Rightarrow> (eref option \<times> nat) list" where
  "replayed_of [] = []"
| "replayed_of (Replayed el cb # es) = (el, cb) # replayed_of es"
| "replayed_of (e # es) = replayed_of es"


text \<open>
  Every request taken from the queue is followed at once by the start of its cycle, on
  the same element, with the empty context and \<open>updateOwnwer = true\<close>.
\<close>

fun replays_defaulted :: "stem_event list \<Rightarrow> bool" where
  "replays_defaulted [] = True"
| "replays_defaulted (Replayed el cb # es) =
     (case es of
        Locked el' c u # rest \<Rightarrow> el' = el \<and> c = [] \<and> u \<and> replays_defaulted es
      | _ \<Rightarrow> False)"
| "replays_defaulted (e # es) = replays_defaulted es"



text \<open>What a call of \<open>render\<close> does to a locked stem.\<close>

definition enqueue :: "request \<Rightarrow> stem \<Rightarrow> stem" where
  "enqueue r S =
     S\<lparr>renderQueue := renderQueue S @ [(r_el r, r_cb r)],
       journal := journal S @ [Queued (r_el r) (r_cb r)]\<rparr>"

text \<open>
  The state of a stem between calls: its journal is in order and ends in phase \<open>p\<close>, and
  the requests ever queued are those already taken followed by those still queued.
\<close>

definition consistent :: "phase \<Rightarrow> stem \<Rightarrow> bool" where
  "consistent p S =
     (enabled S \<and> run_journal (Some Idle) (journal S) = Some p \<and>
      queued_of (journal S) = replayed_of (journal S) @ renderQueue S)"

definition settled :: "stem \<Rightarrow> bool" where
  "settled S =
     (\<exists>p. consistent p S \<and>
          (if lock S then in_flight p
           else (p = Idle \<or> p = Released) \<and> renderQueue S = [] \<and> tree S \<noteq> None))"

subsection \<open>A stem for concrete runs\<close>

text \<open>
  The stem owns the old tree (element 1) and is idle. The callback 1 calls \<open>render\<close>
  twice on the stem, with callbacks 2 and 3, a context of its own and
  \<open>updateOwnwer = false\<close>; no other user code calls \<open>render\<close>.
\<close>

definition ex_senv :: senv where
  "ex_senv = \<lparr>isComponent = (\<lambda>h e. False),
              instantiateComponent = (\<lambda>c e oldEl h. ((None, c), h)),
              getComponentRenderedTree = (\<lambda>h e. None),
              stripComponent = (\<lambda>h e. Some e),
              diff = ex_diff,
              isNewElement = (\<lambda>d. flags d = 1),
              isRemoveElement = (\<lambda>d. flags d = 2),
              isReplaceElement = (\<lambda>d. flags d = REPLACE_ELEMENT),
              isTextChanged = (\<lambda>d. flags d = 4),
              isCreateChildren = (\<lambda>d. False),
              fastCreateDomTree = (\<lambda>c r e w. (300, w)),
              createDomElement = (\<lambda>r e w. (200, w)),
              getTextValueOf = (\<lambda>h e. ''''),
              DOMEvents = (\<lambda>k. False),
              getEventHandler = (\<lambda>st. None),
              reenters = (\<lambda>s S. if s = DuringCallback 1
                               then [\<lparr>r_el = Some 11, r_cb = 2, r_context = [(''k'', ''v'')],
                                      r_updateOwner = False\<rparr>,
                                     \<lparr>r_el = Some 11, r_cb = 3, r_context = [(''k'', ''v'')],
                                      r_updateOwner = False\<rparr>]
                               else [])\<rparr>"


definition ex_stem :: stem where
  "ex_stem = \<lparr>enabled = True, stem_batchs = [], batchCallback = None, lock = False,
              renderQueue = [], tree = Some 1,
              machine = \<lparr>wld = \<lparr>w_elems = ex_heap, nodes = ex_nodes\<rparr>, calls = []\<rparr>,
              journal = []\<rparr>"

definition ex_request :: request where
  "ex_request = \<lparr>r_el = Some 11, r_cb = 1, r_context = [], r_updateOwner = True\<rparr>"

section \<open>Properties of the keyed child matcher\<close>

lemma indexOf_ge: "indexOf xs v \<ge> -1"
  by (induction xs) (auto simp: Let_def)

lemma indexOf_absent: "(indexOf xs v = -1) = (v \<notin> set xs)"
proof (induction xs)
  case Nil
  show ?case by simp
next
  case (Cons x xs)
  have "indexOf xs v \<ge> -1" by (rule indexOf_ge)
  with Cons show ?case by (auto simp: Let_def)
qed

lemma splice1_indexOf: "v \<in> set xs \<Longrightarrow> splice1 xs (indexOf xs v) = remove1 v xs"
proof (induction xs)
  case Nil
  then show ?case by simp
next
  case (Cons x xs)
  show ?case
  proof (cases "x = v")
    case True
    then show ?thesis by (simp add: splice1_def)
  next
    case False
    with Cons.prems have m: "v \<in> set xs" by simp
    then have ne: "indexOf xs v \<noteq> -1" by (simp add: indexOf_absent)
    have ge: "indexOf xs v \<ge> -1" by (rule indexOf_ge)
    from ne ge have nn: "0 \<le> indexOf xs v" by arith
    then have "nat (indexOf xs v + 1) = Suc (nat (indexOf xs v))" by arith
    with False ne Cons.IH[OF m] show ?thesis
      by (simp add: splice1_def Let_def)
  qed
qed

lemma shift_positional: "(fst (shift ocs), False, snd (shift ocs)) = spec_positional ocs"
  by (simp add: shift_def spec_positional_def split: list.splits)

lemma keyed_lookup_spec:
  "spec_keyed_match h (Some ps) newChild =
     (case keyed_lookup h (oldElement ps) newChild of Elem oc \<Rightarrow> Some oc | _ \<Rightarrow> None)"
  by (simp add: keyed_lookup_def spec_keyed_match_def split: option.splits)

lemma pair_old_child_spec:
  "pair_old_child h parentState newChild ocs = (oc, keyed, queue, h1) \<Longrightarrow>
   spec_pairing h parentState newChild ocs = (oc, keyed, queue)"
proof (cases parentState)
  case None
  assume "pair_old_child h parentState newChild ocs = (oc, keyed, queue, h1)"
  with None shift_positional[of ocs] show ?thesis
    by (simp add: pair_old_child_def spec_pairing_def spec_keyed_match_def)
next
  case (Some ps)
  assume a: "pair_old_child h parentState newChild ocs = (oc, keyed, queue, h1)"
  show ?thesis
  proof (cases "keyed_lookup h (oldElement ps) newChild")
    case (Elem m)
    with a Some shift_positional[of ocs] show ?thesis
      by (auto simp: pair_old_child_def spec_pairing_def keyed_lookup_spec Let_def
            indexOf_absent splice1_indexOf split: if_splits)
  next
    case Truthy
    with a Some shift_positional[of ocs] show ?thesis
      by (simp add: pair_old_child_def spec_pairing_def keyed_lookup_spec Let_def)
  next
    case Falsy
    with a Some shift_positional[of ocs] show ?thesis
      by (simp add: pair_old_child_def spec_pairing_def keyed_lookup_spec Let_def)
  qed
qed

lemma createNextStackState_Inr:
  assumes "createNextStackState context parentState prev oldEl h = Inr (child, prev', h')"
  obtains ncs ocs oc keyed queue h1 where
    "newChildren prev = Some ncs" "oldChildren prev = Some ocs"
    "pair_old_child h parentState (fst (shift ncs)) ocs = (oc, keyed, queue, h1)"
    "oldElement child = oc" "isKeyedItem child = keyed"
    "prev' = prev\<lparr>newChildren := Some (snd (shift ncs)), oldChildren := Some queue\<rparr>"
    "newElement child = fst (child_and_root h1 prev (fst (shift ncs)))"
    "root child = snd (child_and_root h1 prev (fst (shift ncs)))"
    "\<not> parsed child" "ctxt child = context"
    "\<forall>e. keymap (h' e) = keymap (h1 e)"
    "\<forall>e. stem_ref (h' e) = stem_ref (h1 e)"
    "\<forall>e. dom_ref (h' e) = dom_ref (h1 e)"
  using assms
  by (auto simp: createNextStackState_def Let_def split: option.splits prod.splits if_splits)

text \<open>
  C6. Whenever \<open>createNextStackState\<close> returns, the old child it pairs, the
  \<open>isKeyedItem\<close> flag and the old-children queue it leaves in \<open>prev\<close> are those of the
  specification's policy: the keyed match spliced out of the queue and flagged keyed when
  the parent's old element has a key index holding the popped new child's key and the
  match is still queued; the next old child, dequeued and not flagged, when the match was
  already consumed and in every other case.
\<close>

theorem createNextStackState_pairing:
  assumes "newChildren prev = Some ncs" and "oldChildren prev = Some ocs"
    and "createNextStackState context parentState prev oldEl h = Inr (child, prev', h')"
  shows "(oldElement child, isKeyedItem child, oldChildren prev') =
           (case spec_pairing h parentState (fst (shift ncs)) ocs of
              (oc, keyed, queue) \<Rightarrow> (oc, keyed, Some queue))"
proof -
  from assms(3) obtain ncs' ocs' oc keyed queue h1 where
    r: "newChildren prev = Some ncs'" "oldChildren prev = Some ocs'"
    "pair_old_child h parentState (fst (shift ncs')) ocs' = (oc, keyed, queue, h1)"
    "oldElement child = oc" "isKeyedItem child = keyed"
    "prev' = prev\<lparr>newChildren := Some (snd (shift ncs')), oldChildren := Some queue\<rparr>"
    by (rule createNextStackState_Inr)
  from r(1,2) assms(1,2) have "ncs' = ncs" "ocs' = ocs" by simp_all
  with r(3) have "spec_pairing h parentState (fst (shift ncs)) ocs = (oc, keyed, queue)"
    by (simp add: pair_old_child_spec)
  with r(4,5,6) show ?thesis by simp
qed

lemmas ex_simps = blank_def ex_heap_def ex_diff_def ex_env_def ex_frame_def ex_parent_def
  REPLACE_ELEMENT_def shift_def splice1_def Let_def

lemmas index_simps = keyed_lookup_def get_property_def object_prototype_get_def
  object_prototype_members_def element_get_def truthy_def index_new_parent_def
  set_property_def empty_object_def

lemma ex_matcher_run:
  "\<exists>child prev' h'.
     createNextStackState [] (Some ex_parent) ex_parent (Some 1) ex_heap = Inr (child, prev', h')"
  by (simp add: createNextStackState_def pair_old_child_def child_and_root_def
        index_simps ex_simps)

theorem createNextStackState_pairing_witness:
  "(case createNextStackState [] (Some ex_parent) ex_parent (Some 1) ex_heap of
      Inl e \<Rightarrow> False
    | Inr (child, prev', h') \<Rightarrow>
        oldElement child = Some 3 \<and> isKeyedItem child \<and> oldChildren prev' = Some [Some 2])"
proof -
  from ex_matcher_run obtain child prev' h' where
    run: "createNextStackState [] (Some ex_parent) ex_parent (Some 1) ex_heap = Inr (child, prev', h')"
    by blast
  have n: "newChildren ex_parent = Some [Some 13, Some 12]"
    and o: "oldChildren ex_parent = Some [Some 2, Some 3]"
    by (simp_all add: ex_simps)
  have "spec_pairing ex_heap (Some ex_parent) (fst (shift [Some 13, Some 12])) [Some 2, Some 3]
          = (Some 3, True, [Some 2])"
    by (simp add: spec_pairing_def spec_keyed_match_def spec_positional_def index_simps ex_simps)
  with createNextStackState_pairing[OF n o run] run show ?thesis by simp
qed

section \<open>Properties of the walker\<close>

lemma expand_children_Inr:
  assumes "expand_children context oldEl next rest w = Inr w'"
  shows "w' = w\<lparr>stack := rest\<rparr> \<or>
         (\<exists>child next' h'.
            createNextStackState context (parent w) next oldEl (elems w) = Inr (child, next', h') \<and>
            (case difference next of None \<Rightarrow> True
             | Some d \<Rightarrow> flags d = 0 \<or> flags d = REPLACE_ELEMENT) \<and>
            w' = w\<lparr>stack := child # next' # rest, parent := Some next', elems := h'\<rparr>)"
  using assms
  by (auto simp: expand_children_def split: option.splits sum.splits if_splits prod.splits)

lemma expand_children_drop:
  assumes "newChildren next = Some ncs" and "oldChildren next = Some ocs"
    and "difference next = Some d" and "flags d \<noteq> 0" and "flags d \<noteq> REPLACE_ELEMENT"
  shows "expand_children context oldEl next rest w = Inr (w\<lparr>stack := rest\<rparr>)"
  using assms by (simp add: expand_children_def)

lemma createNextStackState_total:
  assumes "newChildren prev = Some ncs" and "oldChildren prev = Some ocs"
    and "newElement prev = None \<Longrightarrow> ncs = []"
  shows "\<exists>r. createNextStackState context parentState prev oldEl h = Inr r"
proof (cases "newElement prev")
  case None
  with assms(3) have "ncs = []" by simp
  with assms(1,2) show ?thesis
    by (simp add: createNextStackState_def child_and_root_def shift_def Let_def
          split: prod.splits)
next
  case (Some pn)
  with assms(1,2) show ?thesis
    by (simp add: createNextStackState_def Let_def split: prod.splits option.splits)
qed

lemma expand_children_total:
  assumes "newChildren next = Some ncs" and "oldChildren next = Some ocs"
    and "newElement next = None \<Longrightarrow> ncs = []"
  shows "\<exists>w'. expand_children context oldEl next rest w = Inr w'"
proof -
  from createNextStackState_total[OF assms, of "context" "parent w" oldEl "elems w"]
  obtain r where "createNextStackState context (parent w) next oldEl (elems w) = Inr r" by blast
  with assms(1,2) show ?thesis
    by (cases r) (simp add: expand_children_def split: prod.splits)
qed

lemma expand_children_batchs:
  "expand_children context oldEl next rest w = Inr w' \<Longrightarrow> batchs w' = batchs w"
  by (drule expand_children_Inr) auto


lemma inherit_stem_dom [simp]: "dom_ref (inherit_stem h newEl oldEl e) = dom_ref (h e)"
  by (simp add: inherit_stem_def split: option.splits)

lemma inherit_stem_keymap [simp]: "keymap (inherit_stem h newEl oldEl e) = keymap (h e)"
  by (simp add: inherit_stem_def split: option.splits)

lemma inherit_stem_both [simp]:
  "stem_ref (inherit_stem h (Some ne) (Some oe) ne) = stem_ref (h oe)"
  by (simp add: inherit_stem_def)

lemma patch_iter_absent:
  assumes "stack w = next # rest" and "\<not> parsed next"
    and "patchComponent n E (ctxt next) (newElement next) (oldElement next) (elems w)
           = Some (cx, None, None, h1)"
  shows "patch_iter n E w = Some (Inr (w\<lparr>stack := rest, elems := h1\<rparr>))"
  using assms by (simp add: patch_iter_def)

lemma patch_iter_abort:
  assumes "stack w = next # rest" and "\<not> parsed next"
    and "patchComponent n E (ctxt next) (newElement next) (oldElement next) (elems w)
           = Some (cx, newEl, Some oe, h1)"
    and "dom_ref (h1 oe) = None"
  shows "patch_iter n E w = Some (Inl (InvariantViolation ''Dom element was accidentally removed.''))"
  using assms by (simp add: patch_iter_def invariant_def Let_def)

lemma patch_iter_parse:
  assumes "stack w = next # rest" and "\<not> parsed next"
    and "patchComponent n E (ctxt next) (newElement next) (oldElement next) (elems w)
           = Some (cx, newEl, oldEl, h1)"
    and "newEl \<noteq> None \<or> oldEl \<noteq> None"
    and "\<And>oe. oldEl = Some oe \<Longrightarrow> dom_ref (h1 oe) \<noteq> None"
    and "h2 = inherit_stem h1 newEl oldEl" and "d = diff E h2 oldEl newEl"
  shows "patch_iter n E w =
           Some (expand_children cx oldEl (parsed_frame next cx newEl oldEl h2 d) rest
                   (w\<lparr>batchs := batchs w @ [batch_entry w next cx newEl oldEl h2 d],
                      elems := h2\<rparr>))"
proof (cases oldEl)
  case None
  with assms(4) obtain ne where "newEl = Some ne" by auto
  with None assms(1,2,3,6,7) show ?thesis by (simp add: patch_iter_def Let_def)
next
  case (Some oe)
  with assms(5) have "dom_ref (h1 oe) \<noteq> None" by simp
  with Some assms(1,2,3,6,7) show ?thesis
    by (auto simp: patch_iter_def Let_def invariant_def)
qed

lemma parsed_frame_total:
  "\<exists>w'. expand_children cx oldEl (parsed_frame next cx' newEl oldEl' h d) rest w = Inr w'"
  by (rule expand_children_total[where ncs = "case newEl of None \<Rightarrow> [] | Some ne \<Rightarrow> children (h ne)"
        and ocs = "case oldEl' of None \<Rightarrow> [] | Some oe \<Rightarrow> children (h oe)"])
    (simp_all add: parsed_frame_def)

lemma patch_iter_Inr:
  assumes "stack w = next # rest" and "patch_iter n E w = Some (Inr w')"
  shows "(parsed next \<and> expand_children (ctxt next) (oldElement next) next rest w = Inr w') \<or>
         (\<not> parsed next \<and>
          (\<exists>cx h1. patchComponent n E (ctxt next) (newElement next) (oldElement next) (elems w)
                      = Some (cx, None, None, h1) \<and>
                   w' = w\<lparr>stack := rest, elems := h1\<rparr>)) \<or>
         (\<not> parsed next \<and>
          (\<exists>cx newEl oldEl h1.
             patchComponent n E (ctxt next) (newElement next) (oldElement next) (elems w)
               = Some (cx, newEl, oldEl, h1) \<and>
             (newEl \<noteq> None \<or> oldEl \<noteq> None) \<and>
             expand_children cx oldEl
               (parsed_frame next cx newEl oldEl (inherit_stem h1 newEl oldEl)
                  (diff E (inherit_stem h1 newEl oldEl) oldEl newEl)) rest
               (w\<lparr>batchs := batchs w @
                    [batch_entry w next cx newEl oldEl (inherit_stem h1 newEl oldEl)
                       (diff E (inherit_stem h1 newEl oldEl) oldEl newEl)],
                  elems := inherit_stem h1 newEl oldEl\<rparr>) = Inr w'))"
proof (cases "parsed next")
  case True
  with assms show ?thesis by (simp add: patch_iter_def)
next
  case False
  with assms obtain cx newEl oldEl h1 where
    pc: "patchComponent n E (ctxt next) (newElement next) (oldElement next) (elems w)
           = Some (cx, newEl, oldEl, h1)"
    by (auto simp: patch_iter_def split: option.splits)
  show ?thesis
  proof (cases "newEl = None \<and> oldEl = None")
    case True
    with False assms pc show ?thesis by (simp add: patch_iter_def)
  next
    case f2: False
    with False assms pc show ?thesis
      by (auto simp: patch_iter_def Let_def split: sum.splits option.splits)
  qed
qed

lemma expand_remount_diff: "expand_remount n (E\<lparr>diff := d\<rparr>) cx newEl h = expand_remount n E cx newEl h"
  by (induction n E cx newEl h rule: expand_remount.induct) (simp_all split: prod.splits)

lemma expand_reuse_diff:
  "expand_reuse n (E\<lparr>diff := d\<rparr>) cx newEl oldEl h = expand_reuse n E cx newEl oldEl h"
  by (induction n E cx newEl oldEl h rule: expand_reuse.induct)
    (simp_all add: Let_def split: prod.splits cong: option.case_cong if_cong)

lemma patchComponent_diff:
  "patchComponent n (E\<lparr>diff := d\<rparr>) cx newEl oldEl h = patchComponent n E cx newEl oldEl h"
  by (simp add: patchComponent_def expand_remount_diff expand_reuse_diff
        cong: option.case_cong if_cong)

text \<open>
  C7. A frame popped unparsed whose pair is absent on both sides after component
  expansion is discarded: the turn succeeds, the stack is what lay below the frame (no
  child frame, nothing re-pushed), \<open>this.batchs\<close> and \<open>parent\<close> are unchanged, and the
  outcome is the same whatever the difference classifier is, so no difference is computed.
\<close>

theorem absent_pair_discarded:
  assumes "stack w = next # rest" and "\<not> parsed next"
    and "patchComponent n E (ctxt next) (newElement next) (oldElement next) (elems w)
           = Some (cx, None, None, h1)"
  shows "\<exists>w'. patch_iter n E w = Some (Inr w') \<and> stack w' = rest \<and> batchs w' = batchs w \<and>
              parent w' = parent w \<and> elems w' = h1 \<and>
              (\<forall>d. patch_iter n (E\<lparr>diff := d\<rparr>) w = Some (Inr w'))"
proof -
  have "\<And>d. patchComponent n (E\<lparr>diff := d\<rparr>) (ctxt next) (newElement next) (oldElement next) (elems w)
           = Some (cx, None, None, h1)"
    using assms(3) by (simp add: patchComponent_diff)
  then have "\<And>d. patch_iter n (E\<lparr>diff := d\<rparr>) w = Some (Inr (w\<lparr>stack := rest, elems := h1\<rparr>))"
    using assms(1,2) by (rule patch_iter_absent[rotated 2])
  moreover have "patch_iter n E w = Some (Inr (w\<lparr>stack := rest, elems := h1\<rparr>))"
    using assms by (rule patch_iter_absent)
  ultimately show ?thesis by simp
qed

text \<open>
  C3. For a frame popped unparsed whose old element is present after component
  expansion, the turn aborts with the invariant's error exactly when the old element has
  no native node; when it has one, the turn succeeds and appends the pair's batch entry.
\<close>

theorem missing_native_node_aborts:
  assumes "stack w = next # rest" and "\<not> parsed next"
    and "patchComponent n E (ctxt next) (newElement next) (oldElement next) (elems w)
           = Some (cx, newEl, Some oe, h1)"
  shows "if dom_ref (h1 oe) = None
         then patch_iter n E w =
                Some (Inl (InvariantViolation ''Dom element was accidentally removed.''))
         else (\<exists>w' entry. patch_iter n E w = Some (Inr w') \<and>
                 batchs w' = batchs w @ [entry] \<and>
                 b_newElement entry = newEl \<and> b_oldElement entry = Some oe)"
proof (cases "dom_ref (h1 oe) = None")
  case True
  with assms show ?thesis by (simp add: patch_iter_abort)
next
  case False
  define h2 where "h2 = inherit_stem h1 newEl (Some oe)"
  define d where "d = diff E h2 (Some oe) newEl"
  define w1 where "w1 = w\<lparr>batchs := batchs w @ [batch_entry w next cx newEl (Some oe) h2 d],
                           elems := h2\<rparr>"
  from False assms h2_def d_def
  have it: "patch_iter n E w =
              Some (expand_children cx (Some oe) (parsed_frame next cx newEl (Some oe) h2 d) rest w1)"
    unfolding w1_def by (intro patch_iter_parse) simp_all
  from parsed_frame_total obtain w' where
    ex: "expand_children cx (Some oe) (parsed_frame next cx newEl (Some oe) h2 d) rest w1 = Inr w'"
    by blast
  from expand_children_batchs[OF ex] have "batchs w' = batchs w @ [batch_entry w next cx newEl (Some oe) h2 d]"
    by (simp add: w1_def)
  with it ex False show ?thesis by (simp add: batch_entry_def)
qed

lemma set_property_empty:
  "set_property empty_object k c =
     (if k = ''__proto__'' then \<lparr>own = [], proto = ElementPrototype c\<rparr>
      else \<lparr>own = [(k, c)], proto = ObjectPrototype\<rparr>)"
  by (simp add: set_property_def empty_object_def)

lemma index_new_parent_fields:
  "stem_ref (index_new_parent h pn nc e) = stem_ref (h e)"
  "dom_ref (index_new_parent h pn nc e) = dom_ref (h e)"
  by (simp_all add: index_new_parent_def split: option.splits)

lemma index_new_parent_keymaps: "keymaps_grow h (index_new_parent h pn nc)"
  by (simp add: index_new_parent_def keymaps_grow_def set_property_empty split: option.splits)

lemma pair_old_child_heap:
  assumes "pair_old_child h parentState newChild ocs = (oc, keyed, queue, h1)"
  shows "h1 = h \<or>
         (\<exists>ps. parentState = Some ps \<and> keyed_lookup h (oldElement ps) newChild \<noteq> Falsy \<and>
               h1 = index_new_parent h (newElement ps) newChild)"
  using assms
  by (auto simp: pair_old_child_def Let_def split: option.splits jsval.splits if_splits)

lemma pair_old_child_fields:
  assumes "pair_old_child h parentState newChild ocs = (oc, keyed, queue, h1)"
  shows "stem_ref (h1 e) = stem_ref (h e)" and "dom_ref (h1 e) = dom_ref (h e)"
  using pair_old_child_heap[OF assms] by (auto simp: index_new_parent_fields)

lemma keymaps_grow_refl: "keymaps_grow h h"
  by (simp add: keymaps_grow_def)

lemma pair_old_child_keymaps:
  assumes "pair_old_child h parentState newChild ocs = (oc, keyed, queue, h1)"
  shows "keymaps_grow h h1"
  using pair_old_child_heap[OF assms] by (auto simp: index_new_parent_keymaps keymaps_grow_refl)

lemma createNextStackState_fields:
  assumes "createNextStackState cx parentState prev oldEl h = Inr (child, prev', h')"
  shows "stem_ref (h' e) = stem_ref (h e)" and "dom_ref (h' e) = dom_ref (h e)"
    and "keymaps_grow h h'"
proof -
  from assms obtain ncs ocs oc keyed queue h1 where
    p: "pair_old_child h parentState (fst (shift ncs)) ocs = (oc, keyed, queue, h1)"
    and k: "\<forall>e. keymap (h' e) = keymap (h1 e)"
    and s: "\<forall>e. stem_ref (h' e) = stem_ref (h1 e)"
    and d: "\<forall>e. dom_ref (h' e) = dom_ref (h1 e)"
    by (rule createNextStackState_Inr)
  from s pair_old_child_fields(1)[OF p] show "stem_ref (h' e) = stem_ref (h e)" by simp
  from d pair_old_child_fields(2)[OF p] show "dom_ref (h' e) = dom_ref (h e)" by simp
  from k pair_old_child_keymaps[OF p] show "keymaps_grow h h'"
    by (simp add: keymaps_grow_def)
qed

lemma expand_children_fields:
  assumes "expand_children cx oldEl next rest w = Inr w'"
  shows "stem_ref (elems w' e) = stem_ref (elems w e)"
    and "keymaps_grow (elems w) (elems w')"
proof -
  from expand_children_Inr[OF assms]
  consider "w' = w\<lparr>stack := rest\<rparr>"
    | child next' h' where
        "createNextStackState cx (parent w) next oldEl (elems w) = Inr (child, next', h')"
        "elems w' = h'"
    by auto
  then have "stem_ref (elems w' e) = stem_ref (elems w e) \<and> keymaps_grow (elems w) (elems w')"
  proof cases
    case 1
    then show ?thesis by (simp add: keymaps_grow_refl)
  next
    case 2
    from createNextStackState_fields(1,3)[OF 2(1)] 2(2) show ?thesis by simp
  qed
  then show "stem_ref (elems w' e) = stem_ref (elems w e)"
    and "keymaps_grow (elems w) (elems w')" by simp_all
qed

text \<open>
  C8. When both elements are present after component expansion, a turn that returns has
  appended a batch entry whose difference was computed on the store in which the new
  element's \<open>_stem\<close> is already the old element's, and the new element still carries
  that \<open>_stem\<close> at the end of the turn.
\<close>

theorem stem_inherited_before_diff:
  assumes "stack w = next # rest" and "\<not> parsed next"
    and "patchComponent n E (ctxt next) (newElement next) (oldElement next) (elems w)
           = Some (cx, Some ne, Some oe, h1)"
    and "patch_iter n E w = Some (Inr w')"
  shows "\<exists>entry. batchs w' = batchs w @ [entry] \<and>
           b_newElement entry = Some ne \<and> b_oldElement entry = Some oe \<and>
           b_difference entry =
             diff E (h1(ne := (h1 ne)\<lparr>stem_ref := stem_ref (h1 oe)\<rparr>)) (Some oe) (Some ne) \<and>
           stem_ref (elems w' ne) = stem_ref (h1 oe)"
proof -
  define h2 where "h2 = inherit_stem h1 (Some ne) (Some oe)"
  define d where "d = diff E h2 (Some oe) (Some ne)"
  define w1 where "w1 = w\<lparr>batchs := batchs w @ [batch_entry w next cx (Some ne) (Some oe) h2 d],
                           elems := h2\<rparr>"
  have there: "dom_ref (h1 oe) \<noteq> None"
  proof
    assume "dom_ref (h1 oe) = None"
    from patch_iter_abort[OF assms(1,2,3) this] assms(4) show False by simp
  qed
  from assms(1,2,3) there h2_def d_def
  have it: "patch_iter n E w =
              Some (expand_children cx (Some oe) (parsed_frame next cx (Some ne) (Some oe) h2 d) rest w1)"
    unfolding w1_def by (intro patch_iter_parse) simp_all
  with assms(4) have
    ex: "expand_children cx (Some oe) (parsed_frame next cx (Some ne) (Some oe) h2 d) rest w1 = Inr w'"
    by simp
  from expand_children_batchs[OF ex]
  have b: "batchs w' = batchs w @ [batch_entry w next cx (Some ne) (Some oe) h2 d]"
    by (simp add: w1_def)
  have h2': "h2 = h1(ne := (h1 ne)\<lparr>stem_ref := stem_ref (h1 oe)\<rparr>)"
    by (simp add: h2_def inherit_stem_def)
  from expand_children_fields(1)[OF ex, of ne]
  have "stem_ref (elems w' ne) = stem_ref (h1 oe)"
    by (simp add: w1_def h2_def)
  with b h2' show ?thesis by (simp add: batch_entry_def d_def)
qed

lemma patch_iter_stack:
  assumes "stack w = next # rest" and "patch_iter n E w = Some (Inr w')"
  shows "stack w' = rest \<or>
         (\<exists>child next' nx.
            stack w' = child # next' # rest \<and> \<not> parsed child \<and>
            parsed next' = parsed nx \<and> difference next' = difference nx \<and>
            (case difference nx of None \<Rightarrow> True
             | Some d \<Rightarrow> flags d = 0 \<or> flags d = REPLACE_ELEMENT) \<and>
            (if parsed next then nx = next
             else parsed nx \<and> batchs w' \<noteq> batchs w \<and>
                  difference nx = Some (b_difference (last (batchs w')))))"
proof -
  have step: "stack w' = rest \<or>
         (\<exists>child next'.
            stack w' = child # next' # rest \<and> \<not> parsed child \<and>
            parsed next' = parsed nx \<and> difference next' = difference nx \<and>
            (case difference nx of None \<Rightarrow> True
             | Some d \<Rightarrow> flags d = 0 \<or> flags d = REPLACE_ELEMENT))"
    if "expand_children cx oldEl nx rest w1 = Inr w'" for cx oldEl nx w1
    using expand_children_Inr[OF that]
    by (auto elim!: createNextStackState_Inr)
  from patch_iter_Inr[OF assms]
  consider (parsed) "parsed next" "expand_children (ctxt next) (oldElement next) next rest w = Inr w'"
    | (absent) "stack w' = rest"
    | (fresh) cx newEl oldEl h2 d where "\<not> parsed next"
        "expand_children cx oldEl (parsed_frame next cx newEl oldEl h2 d) rest
           (w\<lparr>batchs := batchs w @ [batch_entry w next cx newEl oldEl h2 d], elems := h2\<rparr>) = Inr w'"
    by auto
  then show ?thesis
  proof cases
    case parsed
    from step[OF parsed(2)] parsed(1) show ?thesis by auto
  next
    case absent
    then show ?thesis by simp
  next
    case fresh
    from expand_children_batchs[OF fresh(2)]
    have "batchs w' = batchs w @ [batch_entry w next cx newEl oldEl h2 d]" by simp
    then have "batchs w' \<noteq> batchs w" "b_difference (last (batchs w')) = d"
      by (simp_all add: batch_entry_def)
    then have b: "batchs w' \<noteq> batchs w"
        "difference (parsed_frame next cx newEl oldEl h2 d) = Some (b_difference (last (batchs w')))"
        "parsed (parsed_frame next cx newEl oldEl h2 d)"
      by (simp_all add: parsed_frame_def)
    from step[OF fresh(2)] show ?thesis
    proof
      assume "stack w' = rest"
      then show ?thesis by simp
    next
      assume "\<exists>child next'.
            stack w' = child # next' # rest \<and> \<not> parsed child \<and>
            parsed next' = parsed (parsed_frame next cx newEl oldEl h2 d) \<and>
            difference next' = difference (parsed_frame next cx newEl oldEl h2 d) \<and>
            (case difference (parsed_frame next cx newEl oldEl h2 d) of None \<Rightarrow> True
             | Some d \<Rightarrow> flags d = 0 \<or> flags d = REPLACE_ELEMENT)"
      then obtain child next' where
        c: "stack w' = child # next' # rest" "\<not> parsed child"
           "parsed next' = parsed (parsed_frame next cx newEl oldEl h2 d)"
           "difference next' = difference (parsed_frame next cx newEl oldEl h2 d)"
           "(case difference (parsed_frame next cx newEl oldEl h2 d) of None \<Rightarrow> True
             | Some d \<Rightarrow> flags d = 0 \<or> flags d = REPLACE_ELEMENT)"
        by blast
      show ?thesis
        by (rule disjI2, rule exI[of _ child], rule exI[of _ next'],
            rule exI[of _ "parsed_frame next cx newEl oldEl h2 d"])
          (use c b fresh(1) in simp)
    qed
  qed
qed

lemma patch_iter_stack_cases:
  assumes "stack w = fr # rest" and "patch_iter n E w = Some (Inr w')"
  obtains (dropped) "stack w' = rest"
  | (pushed) child next' nx where
      "stack w' = child # next' # rest" "\<not> parsed child"
      "parsed next' = parsed nx" "difference next' = difference nx"
      "case difference nx of None \<Rightarrow> True
       | Some d \<Rightarrow> flags d = 0 \<or> flags d = REPLACE_ELEMENT"
      "if parsed fr then nx = fr
       else parsed nx \<and> batchs w' \<noteq> batchs w \<and>
            difference nx = Some (b_difference (last (batchs w')))"
  using patch_iter_stack[OF assms] by blast

lemma reaches_parsed_difference:
  assumes "reaches E w0 w" and "\<forall>f \<in> set (stack w0). \<not> parsed f"
  shows "\<forall>f \<in> set (stack w). parsed f \<longrightarrow>
           (\<exists>d. difference f = Some d \<and> (flags d = 0 \<or> flags d = REPLACE_ELEMENT))"
  using assms
proof (induction rule: reaches.induct)
  case start
  then show ?case by simp
next
  case (turn w n w')
  from turn.hyps(2) obtain fr rest where st: "stack w = fr # rest"
    by (cases "stack w") auto
  from turn.IH turn.prems have ih: "\<forall>f \<in> set (stack w). parsed f \<longrightarrow>
           (\<exists>d. difference f = Some d \<and> (flags d = 0 \<or> flags d = REPLACE_ELEMENT))"
    by simp
  from st turn.hyps(3) show ?case
  proof (cases rule: patch_iter_stack_cases)
    case dropped
    with ih st show ?thesis by simp
  next
    case (pushed child next' nx)
    have "\<exists>d. difference nx = Some d \<and> (flags d = 0 \<or> flags d = REPLACE_ELEMENT)"
    proof (cases "parsed fr")
      case True
      with pushed(6) ih st show ?thesis by simp
    next
      case False
      with pushed(5,6) show ?thesis by auto
    qed
    with pushed ih st show ?thesis by simp
  qed
qed

lemma initial_walk_unparsed: "\<forall>f \<in> set (stack (initial_walk oldTree newTree cx h)). \<not> parsed f"
  by (simp add: initial_walk_def makeInitialStackState_def)

text \<open>
  C4. In every state a walk started by \<open>patch\<close> reaches, a turn either drops the
  popped frame or re-pushes it under exactly one new unparsed child frame, and the latter
  only when the frame's difference has \<open>flags = 0\<close> or \<open>flags = REPLACE_ELEMENT\<close>.
  Hence a frame whose difference has any other flags (a pure removal or a pure insertion
  are such, being single bits other than \<open>REPLACE_ELEMENT\<close>) never has a child frame
  pushed for it.
\<close>

theorem children_pushed_only_when_unchanged_or_replaced:
  assumes "reaches E (initial_walk oldTree newTree cx h) w"
    and "stack w = next # rest" and "patch_iter n E w = Some (Inr w')"
  shows "(stack w' = rest \<or>
          (\<exists>child next' d. stack w' = child # next' # rest \<and> \<not> parsed child \<and>
             parsed next' \<and> difference next' = Some d \<and>
             (flags d = 0 \<or> flags d = REPLACE_ELEMENT))) \<and>
         (\<forall>d. (if parsed next then difference next = Some d
               else batchs w' \<noteq> batchs w \<and> b_difference (last (batchs w')) = d) \<longrightarrow>
              flags d \<noteq> 0 \<longrightarrow> flags d \<noteq> REPLACE_ELEMENT \<longrightarrow> stack w' = rest)"
proof -
  from reaches_parsed_difference[OF assms(1) initial_walk_unparsed] assms(2)
  have nx: "parsed next \<Longrightarrow>
           \<exists>d. difference next = Some d \<and> (flags d = 0 \<or> flags d = REPLACE_ELEMENT)"
    by simp
  from assms(2,3) show ?thesis
  proof (cases rule: patch_iter_stack_cases)
    case dropped
    then show ?thesis by simp
  next
    case (pushed child next' nx)
    show ?thesis
    proof (cases "parsed next")
      case True
      with pushed(6) have "nx = next" by simp
      with nx[OF True] pushed True show ?thesis by auto
    next
      case False
      with pushed(6) have "parsed nx" "difference nx = Some (b_difference (last (batchs w')))"
        by simp_all
      with pushed False show ?thesis by auto
    qed
  qed
qed


lemma keymaps_same_grow: "\<forall>x. keymap (h' x) = keymap (h x) \<Longrightarrow> keymaps_grow h h'"
  by (simp add: keymaps_grow_def)







subsection \<open>Concrete runs of the walker\<close>

lemmas walk_simps = patch_def initial_walk_def makeInitialStackState_def
  patch_iter_def patchComponent_def inherit_stem_def invariant_def batch_entry_def
  parsed_frame_def expand_children_def createNextStackState_def pair_old_child_def
  child_and_root_def index_simps ex_walk_def ex_simps

lemma ex_patchComponent:
  "patchComponent n ex_env (ctxt (ex_frame newEl oldEl)) (newElement (ex_frame newEl oldEl))
     (oldElement (ex_frame newEl oldEl)) (elems (ex_walk newEl oldEl))
     = Some ([], newEl, oldEl, ex_heap)"
  by (cases newEl; cases oldEl) (simp_all add: patchComponent_def ex_walk_def ex_simps)

lemma ex_walk_stack: "stack (ex_walk newEl oldEl) = ex_frame newEl oldEl # []"
  by (simp add: ex_walk_def)

lemma ex_frame_unparsed: "\<not> parsed (ex_frame newEl oldEl)"
  by (simp add: ex_frame_def)

theorem absent_pair_discarded_witness:
  "(case patch_iter 0 ex_env (ex_walk None None) of
      Some (Inr w') \<Rightarrow> stack w' = [] \<and> batchs w' = [] \<and> parent w' = None
    | _ \<Rightarrow> False)"
proof -
  from absent_pair_discarded[OF ex_walk_stack[of None None] ex_frame_unparsed[of None None]
      ex_patchComponent[of 0 None None]]
  obtain w' where "patch_iter 0 ex_env (ex_walk None None) = Some (Inr w')"
    "stack w' = []" "batchs w' = batchs (ex_walk None None)"
    "parent w' = parent (ex_walk None None)"
    by blast
  then show ?thesis by (simp add: ex_walk_def)
qed

theorem missing_native_node_aborts_witness:
  "patch_iter 0 ex_env (ex_walk (Some 11) (Some 21)) =
     Some (Inl (InvariantViolation ''Dom element was accidentally removed.'')) \<and>
   (case patch_iter 0 ex_env (ex_walk (Some 11) (Some 1)) of
      Some (Inr w') \<Rightarrow> map b_oldElement (batchs w') = [Some 1]
    | _ \<Rightarrow> False)"
proof -
  have gone: "dom_ref (ex_heap 21) = None" and there: "dom_ref (ex_heap 1) \<noteq> None"
    by (simp_all add: ex_simps)
  from missing_native_node_aborts[OF ex_walk_stack[of "Some 11" "Some 21"]
      ex_frame_unparsed[of "Some 11" "Some 21"] ex_patchComponent[of 0 "Some 11" "Some 21"]] gone
  have a: "patch_iter 0 ex_env (ex_walk (Some 11) (Some 21)) =
     Some (Inl (InvariantViolation ''Dom element was accidentally removed.''))"
    by simp
  from missing_native_node_aborts[OF ex_walk_stack[of "Some 11" "Some 1"]
      ex_frame_unparsed[of "Some 11" "Some 1"] ex_patchComponent[of 0 "Some 11" "Some 1"]] there
  obtain w' entry where "patch_iter 0 ex_env (ex_walk (Some 11) (Some 1)) = Some (Inr w')"
    "batchs w' = batchs (ex_walk (Some 11) (Some 1)) @ [entry]" "b_oldElement entry = Some 1"
    by auto
  with a show ?thesis by (simp add: ex_walk_def)
qed

lemma ex_root_turn:
  "\<exists>w'. patch_iter 0 ex_env (ex_walk (Some 11) (Some 1)) = Some (Inr w')"
  by (simp add: walk_simps)

theorem stem_inherited_before_diff_witness:
  "(case patch_iter 0 ex_env (ex_walk (Some 11) (Some 1)) of
      Some (Inr w') \<Rightarrow>
        stem_ref (elems w' 11) = Some 7 \<and> map (flags \<circ> b_difference) (batchs w') = [0]
    | _ \<Rightarrow> False)"
proof -
  from ex_root_turn obtain w' where
    run: "patch_iter 0 ex_env (ex_walk (Some 11) (Some 1)) = Some (Inr w')" by blast
  from stem_inherited_before_diff[OF ex_walk_stack[of "Some 11" "Some 1"]
      ex_frame_unparsed[of "Some 11" "Some 1"] ex_patchComponent[of 0 "Some 11" "Some 1"] run]
  obtain entry where "batchs w' = batchs (ex_walk (Some 11) (Some 1)) @ [entry]"
    "b_difference entry =
       diff ex_env (ex_heap(11 := (ex_heap 11)\<lparr>stem_ref := stem_ref (ex_heap 1)\<rparr>)) (Some 1) (Some 11)"
    "stem_ref (elems w' 11) = stem_ref (ex_heap 1)"
    by blast
  with run show ?thesis by (simp add: ex_walk_def ex_simps)
qed

lemma ex_first_turn:
  "\<exists>w'. patch_iter 0 ex_env (initial_walk (Some 1) (Some 11) [] ex_heap) = Some (Inr w') \<and>
        length (stack w') = 2"
  by (simp add: walk_simps)

theorem children_pushed_only_when_unchanged_or_replaced_witness:
  "(case patch_iter 0 ex_env (initial_walk (Some 1) (Some 11) [] ex_heap) of
      Some (Inr w') \<Rightarrow>
        (\<exists>child next' d. stack w' = [child, next'] \<and> \<not> parsed child \<and> parsed next' \<and>
           difference next' = Some d \<and> (flags d = 0 \<or> flags d = REPLACE_ELEMENT))
    | _ \<Rightarrow> False)"
proof -
  from ex_first_turn obtain w' where
    run: "patch_iter 0 ex_env (initial_walk (Some 1) (Some 11) [] ex_heap) = Some (Inr w')"
    and len: "length (stack w') = 2"
    by blast
  have st: "stack (initial_walk (Some 1) (Some 11) [] ex_heap) =
              hd (makeInitialStackState [] (Some 11) (Some 1)) # []"
    by (simp add: initial_walk_def makeInitialStackState_def)
  from children_pushed_only_when_unchanged_or_replaced[OF reaches.start st run] len
  have "\<exists>child next' d. stack w' = [child, next'] \<and> \<not> parsed child \<and> parsed next' \<and>
           difference next' = Some d \<and> (flags d = 0 \<or> flags d = REPLACE_ELEMENT)"
    by auto
  with run show ?thesis by simp
qed



text \<open>
  A child whose key names a member of \<open>Object.prototype\<close>: the lookup gives a function,
  so the pairing is positional and the new parent still receives a \<open>_keymap\<close>.
\<close>

lemma ex_constructor_key:
  "pair_old_child ex_heap (Some ex_parent) (Some 15) [Some 2, Some 3] =
     (Some 2, False, [Some 3],
      ex_heap(11 := (ex_heap 11)\<lparr>keymap :=
        Some \<lparr>own = [(''constructor'', 15)], proto = ObjectPrototype\<rparr>\<rparr>))"
  by (simp add: pair_old_child_def index_simps ex_simps)



section \<open>Properties of the batch applier\<close>

lemma filter_remove1_head:
  "filter P xs = c # cs \<Longrightarrow> filter P (remove1 c xs) = cs"
proof (induction xs)
  case Nil
  then show ?case by simp
next
  case (Cons x xs)
  from Cons.prems have "c \<in> set (filter P (x # xs))" by (simp only: list.set_intros)
  then have "P c" by (simp only: set_filter mem_Collect_eq)
  with Cons show ?case by (cases "P x") (auto split: if_splits)
qed

lemma children_of_appendChild:
  assumes "children_of d oldDom = c # cs" and "oldDom \<noteq> newDom"
    and "dom_appendChild d newDom c = Inr d'"
  shows "children_of d' oldDom = cs"
proof -
  from assms(3) have ne: "newDom \<noteq> c"
    by (auto simp: dom_appendChild_def split: if_splits)
  with assms(3) have nt: "\<And>x. nodeType (d' x) = nodeType (d x)"
    by (auto simp: dom_appendChild_def detach_def Let_def split: if_splits)
  from assms(2,3) ne have "childNodes (d' oldDom) = remove1 c (childNodes (d oldDom))"
    by (auto simp: dom_appendChild_def detach_def Let_def split: if_splits)
  with nt assms(1) show ?thesis
    by (simp add: children_of_def filter_remove1_head)
qed

lemma appendChild_Inr:
  assumes "appendChild p c s = Inr s'"
  shows "calls s' = calls s @ [AppendChild p c]" and "w_elems (wld s') = w_elems (wld s)"
    and "\<exists>d'. dom_appendChild (nodes (wld s)) p c = Inr d' \<and> nodes (wld s') = d'"
  using assms
  by (auto simp: appendChild_def bindE_def record_call_def set_nodes_def split: sum.splits)

lemma removeChild_Inr:
  assumes "removeChild p c s = Inr s'"
  shows "calls s' = calls s @ [RemoveChild p c]" and "w_elems (wld s') = w_elems (wld s)"
  using assms
  by (auto simp: removeChild_def bindE_def record_call_def set_nodes_def split: sum.splits)

lemma replaceChild_Inr:
  assumes "replaceChild p n c s = Inr s'"
  shows "calls s' = calls s @ [ReplaceChild p n c]" and "w_elems (wld s') = w_elems (wld s)"
  using assms
  by (auto simp: replaceChild_def bindE_def record_call_def set_nodes_def split: sum.splits)

lemma splice_children_calls:
  "splice_children oldDom newDom s = Some (Inr s') \<Longrightarrow>
   calls s' = calls s @ map (AppendChild newDom) (children_of (nodes (wld s)) oldDom) \<and>
   w_elems (wld s') = w_elems (wld s) \<and> children_of (nodes (wld s')) oldDom = []"
proof (induction oldDom newDom s rule: splice_children.induct)
  case (1 oldDom newDom s)
  show ?case
  proof (cases "children_of (nodes (wld s)) oldDom")
    case Nil
    with "1.prems" show ?thesis by (simp add: splice_children.simps)
  next
    case (Cons c cs)
    with "1.prems" have ne: "oldDom \<noteq> newDom"
      by (auto simp: splice_children.simps[of oldDom newDom s] split: if_splits)
    with "1.prems" Cons obtain s1 where ap: "appendChild newDom c s = Inr s1"
      and rec: "splice_children oldDom newDom s1 = Some (Inr s')"
      by (auto simp: splice_children.simps[of oldDom newDom s] split: sum.splits)
    from appendChild_Inr(3)[OF ap] obtain d' where
      d: "dom_appendChild (nodes (wld s)) newDom c = Inr d'" "nodes (wld s1) = d'" by blast
    from children_of_appendChild[OF Cons ne d(1)] d(2)
    have ch: "children_of (nodes (wld s1)) oldDom = cs" by simp
    from "1.IH"[OF Cons ne ap rec] ch appendChild_Inr(1,2)[OF ap] Cons
    show ?thesis by simp
  qed
qed

lemma bindE_Inr: "bindE m f = Inr y \<Longrightarrow> \<exists>x. m = Inr x \<and> f x = Inr y"
  by (cases m) (simp_all add: bindE_def)

lemma bindR_Inr: "bindR m f = Some (Inr y) \<Longrightarrow> \<exists>x. m = Some (Inr x) \<and> f x = Some (Inr y)"
  by (auto simp: bindR_def split: option.splits sum.splits)

lemma dom_of_receiver:
  "bindE (dom_of s e) receiver = Inr n \<Longrightarrow> \<exists>x. e = Some x \<and> dom_ref (w_elems (wld s) x) = Some n"
  by (auto simp: bindE_def dom_of_def receiver_def split: option.splits sum.splits)

lemma replaceElement_calls:
  assumes "replaceElement A rootEl parentEl oldEl newEl isKeyed s = Some (Inr s')"
    and "createDomElement A rootEl newEl (wld s) = (newDom, w1)"
  shows "\<exists>oe oldDom pe parentDom.
           oldEl = Some oe \<and> dom_ref (w_elems w1 oe) = Some oldDom \<and>
           parentEl = Some pe \<and> dom_ref (w_elems w1 pe) = Some parentDom \<and>
           calls s' = calls s @ [CreateDomElement rootEl newEl] @
             map (AppendChild newDom)
               (if nodeType (nodes w1 oldDom) = 1 \<and> nodeType (nodes w1 newDom) = 1
                then children_of (nodes w1) oldDom else []) @
             (if isKeyed then [RemoveChild parentDom oldDom, AppendChild parentDom newDom]
              else [ReplaceChild parentDom newDom oldDom])"
proof -
  define s1 where "s1 = record_call (CreateDomElement rootEl newEl) (s\<lparr>wld := w1\<rparr>)"
  have s1: "calls s1 = calls s @ [CreateDomElement rootEl newEl]" "wld s1 = w1"
    by (simp_all add: s1_def record_call_def)
  from assms obtain oldDom where od: "bindE (dom_of s1 oldEl) receiver = Inr oldDom"
    by (auto simp: replaceElement_def Let_def s1_def split: sum.splits)
  from dom_of_receiver[OF od] s1(2) obtain oe where
    oe: "oldEl = Some oe" "dom_ref (w_elems w1 oe) = Some oldDom" by auto
  define moved where "moved = (if nodeType (nodes w1 oldDom) = 1 \<and> nodeType (nodes w1 newDom) = 1
                then children_of (nodes w1) oldDom else [])"
  from assms od have
    "bindR (if nodeType (nodes w1 oldDom) = 1 \<and> nodeType (nodes w1 newDom) = 1
            then splice_children oldDom newDom s1 else Some (Inr s1))
       (\<lambda>s2. Some (bindE (dom_of s2 parentEl)
                (\<lambda>parentDom.
                   if \<not> isKeyed
                   then bindE (receiver parentDom) (\<lambda>pd. replaceChild pd newDom oldDom s2)
                   else bindE (receiver parentDom)
                          (\<lambda>pd. bindE (removeChild pd oldDom s2) (appendChild pd newDom)))))
     = Some (Inr s')"
    by (auto simp: replaceElement_def Let_def s1_def split: if_splits)
  from bindR_Inr[OF this] obtain s2 where
    sp: "(if nodeType (nodes w1 oldDom) = 1 \<and> nodeType (nodes w1 newDom) = 1
          then splice_children oldDom newDom s1 else Some (Inr s1)) = Some (Inr s2)"
    and ins: "bindE (dom_of s2 parentEl)
                (\<lambda>parentDom.
                   if \<not> isKeyed
                   then bindE (receiver parentDom) (\<lambda>pd. replaceChild pd newDom oldDom s2)
                   else bindE (receiver parentDom)
                          (\<lambda>pd. bindE (removeChild pd oldDom s2) (appendChild pd newDom))) = Inr s'"
    by auto
  from sp s1 have s2: "calls s2 = calls s @ [CreateDomElement rootEl newEl] @ map (AppendChild newDom) moved"
    "w_elems (wld s2) = w_elems w1"
    by (auto simp: moved_def dest: splice_children_calls split: if_splits)
  from ins obtain pdo where pdo: "dom_of s2 parentEl = Inr pdo"
    and ins2: "(if \<not> isKeyed
                   then bindE (receiver pdo) (\<lambda>pd. replaceChild pd newDom oldDom s2)
                   else bindE (receiver pdo)
                          (\<lambda>pd. bindE (removeChild pd oldDom s2) (appendChild pd newDom))) = Inr s'"
    by (auto dest: bindE_Inr)
  from ins2 obtain parentDom where pd: "receiver pdo = Inr parentDom"
    and ins3: "(if \<not> isKeyed then replaceChild parentDom newDom oldDom s2
                else bindE (removeChild parentDom oldDom s2) (appendChild parentDom newDom)) = Inr s'"
    by (auto dest: bindE_Inr split: if_splits)
  from pdo pd s2(2) obtain pe where pe: "parentEl = Some pe" "dom_ref (w_elems w1 pe) = Some parentDom"
    by (auto simp: dom_of_def receiver_def split: option.splits)
  have "calls s' = calls s2 @ (if isKeyed then [RemoveChild parentDom oldDom, AppendChild parentDom newDom]
              else [ReplaceChild parentDom newDom oldDom])"
  proof (cases isKeyed)
    case True
    with ins3 obtain s3 where "removeChild parentDom oldDom s2 = Inr s3"
      "appendChild parentDom newDom s3 = Inr s'"
      by (auto dest: bindE_Inr)
    with True show ?thesis by (simp add: removeChild_Inr(1) appendChild_Inr(1))
  next
    case False
    with ins3 show ?thesis by (simp add: replaceChild_Inr(1))
  qed
  with s2(1) oe pe show ?thesis by (simp add: moved_def)
qed

text \<open>
  What the applier does for an entry that it treats as a replaced element, when it
  returns: the entry has a parent, and the calls made are, in this order, "will unmount"
  on the old element; the creation of the new native node; one \<open>appendChild\<close> onto the
  new node for each element child of the old node (the entries of its \<open>children\<close>
  collection; a text node is not among them), and that only when both nodes have
  \<open>nodeType\<close> 1; \<open>replaceChild\<close> on the parent's node when the pairing is positional,
  \<open>removeChild\<close> followed by \<open>appendChild\<close> on it when the pairing is keyed; "did
  mount" on the new element; and the tree builder when the difference asks for children
  to be created.
\<close>

lemma replaced_entry_calls:
  assumes "\<not> isNewElement A (b_difference b)" and "\<not> isRemoveElement A (b_difference b)"
    and "isReplaceElement A (b_difference b)"
    and "update_entry A b s = Some (Inr s')"
    and "createDomElement A (b_root b) (b_newElement b) (wld s) = (newDom, w1)"
  shows "\<exists>oe oldDom pe parentDom.
           b_oldElement b = Some oe \<and> dom_ref (w_elems w1 oe) = Some oldDom \<and>
           b_parent b = Some pe \<and> dom_ref (w_elems w1 pe) = Some parentDom \<and>
           calls s' = calls s @
             [InvokeWillUnmount (b_oldElement b), CreateDomElement (b_root b) (b_newElement b)] @
             map (AppendChild newDom)
               (if nodeType (nodes w1 oldDom) = 1 \<and> nodeType (nodes w1 newDom) = 1
                then children_of (nodes w1) oldDom else []) @
             (if b_isKeyedItem b then [RemoveChild parentDom oldDom, AppendChild parentDom newDom]
              else [ReplaceChild parentDom newDom oldDom]) @
             [InvokeDidMount (b_newElement b)] @
             (if isCreateChildren A (b_difference b)
              then [FastCreateDomTree (b_ctxt b) (b_root b) (b_newElement b)] else [])"
proof -
  define s0 where "s0 = record_call (InvokeWillUnmount (b_oldElement b)) s"
  have s0: "calls s0 = calls s @ [InvokeWillUnmount (b_oldElement b)]" "wld s0 = wld s"
    by (simp_all add: s0_def record_call_def)
  from assms(4) obtain s3 where
    pa: "primary_action A b s = Some (Inr s3)"
    and fin: "s' = (if isCreateChildren A (b_difference b)
                    then snd (build_tree A (b_ctxt b) (b_root b) (b_newElement b) s3) else s3)"
    by (auto simp: update_entry_def dest!: bindR_Inr split: if_splits)
  from pa assms(1,2,3) obtain s2 where
    re: "replaceElement A (b_root b) (b_parent b) (b_oldElement b) (b_newElement b)
           (b_isKeyedItem b) s0 = Some (Inr s2)"
    and s3: "s3 = record_call (InvokeDidMount (b_newElement b)) s2"
    by (auto simp: primary_action_def s0_def dest!: bindR_Inr)
  from assms(5) s0(2) have cd: "createDomElement A (b_root b) (b_newElement b) (wld s0) = (newDom, w1)"
    by simp
  from replaceElement_calls[OF re cd] obtain oe oldDom pe parentDom where
    r: "b_oldElement b = Some oe" "dom_ref (w_elems w1 oe) = Some oldDom"
       "b_parent b = Some pe" "dom_ref (w_elems w1 pe) = Some parentDom"
       "calls s2 = calls s0 @ [CreateDomElement (b_root b) (b_newElement b)] @
             map (AppendChild newDom)
               (if nodeType (nodes w1 oldDom) = 1 \<and> nodeType (nodes w1 newDom) = 1
                then children_of (nodes w1) oldDom else []) @
             (if b_isKeyedItem b then [RemoveChild parentDom oldDom, AppendChild parentDom newDom]
              else [ReplaceChild parentDom newDom oldDom])"
    by blast
  have "calls s' = calls s3 @ (if isCreateChildren A (b_difference b)
              then [FastCreateDomTree (b_ctxt b) (b_root b) (b_newElement b)] else [])"
    using fin by (simp add: build_tree_def record_call_def split: prod.splits)
  with r s3 s0(1) show ?thesis by (simp add: record_call_def)
qed

lemmas applier_simps = update_entry_def primary_action_def replaceElement_def
  build_tree_def bindR_def bindE_def dom_of_def receiver_def record_call_def set_nodes_def
  set_elems_def appendChild_def removeChild_def replaceChild_def dom_appendChild_def
  dom_removeChild_def dom_replaceChild_def detach_def children_of_def
  ex_nodes_def ex_applier_def ex_aenv_def ex_batch_def blank_node_def ex_simps
  splice_children.simps


lemma ex_replace_run:
  "\<exists>s'. update_entry ex_aenv (ex_batch (Some 11) (Some 12) (Some 2) False 8) ex_applier = Some (Inr s')"
  by (simp add: applier_simps)

lemma ex_replace_keyed_run:
  "\<exists>s'. update_entry ex_aenv (ex_batch (Some 11) (Some 12) (Some 2) True 8) ex_applier = Some (Inr s')"
  by (simp add: applier_simps)

text \<open>
  C2. A batch entry whose difference is a new element, whose parent is absent and whose
  old element is present: the applier builds the tree and then reads \<open>parent.dom\<close> of
  the absent parent, so the run ends in a TypeError, with nothing appended and no hook
  invoked.
\<close>

theorem new_without_parent_throws:
  "update ex_aenv [ex_batch None (Some 11) (Some 1) False 1] ex_applier = Some (Inl TypeError)"
  by (simp add: applier_simps)


lemma ex_replaced_entry_calls:
  "(case update_entry ex_aenv (ex_batch (Some 11) (Some 12) (Some 2) False 8) ex_applier of
      Some (Inr s') \<Rightarrow>
        calls s' = [InvokeWillUnmount (Some 2), CreateDomElement (Some 11) (Some 12),
                    AppendChild 200 105, ReplaceChild 101 200 102, InvokeDidMount (Some 12)]
    | _ \<Rightarrow> False) \<and>
   (case update_entry ex_aenv (ex_batch (Some 11) (Some 12) (Some 2) True 8) ex_applier of
      Some (Inr s') \<Rightarrow>
        calls s' = [InvokeWillUnmount (Some 2), CreateDomElement (Some 11) (Some 12),
                    AppendChild 200 105, RemoveChild 101 102, AppendChild 101 200,
                    InvokeDidMount (Some 12)]
    | _ \<Rightarrow> False)"
proof -
  have cls: "\<not> isNewElement ex_aenv (b_difference (ex_batch (Some 11) (Some 12) (Some 2) k 8))"
    "\<not> isRemoveElement ex_aenv (b_difference (ex_batch (Some 11) (Some 12) (Some 2) k 8))"
    "isReplaceElement ex_aenv (b_difference (ex_batch (Some 11) (Some 12) (Some 2) k 8))"
    "createDomElement ex_aenv (b_root (ex_batch (Some 11) (Some 12) (Some 2) k 8))
       (b_newElement (ex_batch (Some 11) (Some 12) (Some 2) k 8)) (wld ex_applier)
       = (200, wld ex_applier)" for k
    by (simp_all add: ex_aenv_def ex_batch_def REPLACE_ELEMENT_def)
  from ex_replace_run obtain s1 where
    r1: "update_entry ex_aenv (ex_batch (Some 11) (Some 12) (Some 2) False 8) ex_applier = Some (Inr s1)"
    by blast
  from ex_replace_keyed_run obtain s2 where
    r2: "update_entry ex_aenv (ex_batch (Some 11) (Some 12) (Some 2) True 8) ex_applier = Some (Inr s2)"
    by blast
  from replaced_entry_calls[OF cls(1,2,3) r1 cls(4)]
  have "calls s1 = [InvokeWillUnmount (Some 2), CreateDomElement (Some 11) (Some 12),
                    AppendChild 200 105, ReplaceChild 101 200 102, InvokeDidMount (Some 12)]"
    by (auto simp: ex_batch_def ex_applier_def ex_aenv_def ex_nodes_def blank_node_def
          children_of_def ex_simps)
  moreover from replaced_entry_calls[OF cls(1,2,3) r2 cls(4)]
  have "calls s2 = [InvokeWillUnmount (Some 2), CreateDomElement (Some 11) (Some 12),
                    AppendChild 200 105, RemoveChild 101 102, AppendChild 101 200,
                    InvokeDidMount (Some 12)]"
    by (auto simp: ex_batch_def ex_applier_def ex_aenv_def ex_nodes_def blank_node_def
          children_of_def ex_simps)
  ultimately show ?thesis using r1 r2 by simp
qed

text \<open>
  An entry that the applier treats as a replaced element and that has no parent never
  goes through, whatever the collaborators are.
\<close>

lemma replaced_without_parent_fails:
  assumes "\<not> isNewElement A (b_difference b)" and "\<not> isRemoveElement A (b_difference b)"
    and "isReplaceElement A (b_difference b)" and "b_parent b = None"
  shows "update_entry A b s \<noteq> Some (Inr s')"
proof
  assume run: "update_entry A b s = Some (Inr s')"
  obtain newDom w1 where "createDomElement A (b_root b) (b_newElement b) (wld s) = (newDom, w1)"
    by (cases "createDomElement A (b_root b) (b_newElement b) (wld s)")
  from replaced_entry_calls[OF assms(1,2,3) run this] assms(4) show False by auto
qed

text \<open>The entry that the walker pushes for the root of the tree has no parent.\<close>

lemma root_entry_without_parent:
  assumes "patch_iter n E (initial_walk oldTree newTree cx h) = Some (Inr w')"
  shows "\<forall>b \<in> set (batchs w'). b_parent b = None"
proof -
  define w where "w = initial_walk oldTree newTree cx h"
  define f where "f = hd (makeInitialStackState cx newTree oldTree)"
  have st: "stack w = f # []" and un: "\<not> parsed f" and pa: "parent w = None"
    and ba: "batchs w = []"
    by (simp_all add: w_def f_def initial_walk_def makeInitialStackState_def)
  from patch_iter_Inr[OF st assms[folded w_def]] un
  consider h1 where "w' = w\<lparr>stack := [], elems := h1\<rparr>"
    | cx1 newEl oldEl h1 d where
        "expand_children cx1 oldEl (parsed_frame f cx1 newEl oldEl h1 d) []
           (w\<lparr>batchs := batchs w @ [batch_entry w f cx1 newEl oldEl h1 d], elems := h1\<rparr>) = Inr w'"
    by blast
  then show ?thesis
  proof cases
    case 1
    with ba show ?thesis by simp
  next
    case 2
    from expand_children_batchs[OF 2] ba pa show ?thesis by (simp add: batch_entry_def)
  qed
qed

text \<open>
  C5. The entry of a root whose type has changed: the walker pairs the new root 12 (a
  \<open>span\<close>) with the old root 1 (a \<open>div\<close>), and the entry it pushes first is a replaced
  element without parent, as the entry of a root always is. On this batch the applier
  throws a TypeError: \<open>replaceElement\<close> reads \<open>parent.dom\<close> of the absent parent, after
  "will unmount" and the move of the children, so that nothing is inserted and "did
  mount" is not invoked. A call of \<open>render\<close> with the new root on the stem that owns
  the old one ends in the same way.
\<close>

theorem replaced_root_entry_throws:
  "(case patch 10 ex_env (Some 1) (Some 12) [] ex_heap of
      Some (Inr w) \<Rightarrow>
        map (\<lambda>b. (b_parent b, b_newElement b, b_oldElement b, b_isKeyedItem b,
                   flags (b_difference b))) (batchs w) =
          [(None, Some 12, Some 1, False, REPLACE_ELEMENT), (Some 12, None, Some 2, False, 2),
           (Some 12, None, Some 3, False, 2)] \<and>
        isReplaceElement ex_aenv (b_difference (hd (batchs w))) \<and>
        update ex_aenv (batchs w) \<lparr>wld = \<lparr>w_elems = elems w, nodes = ex_nodes\<rparr>, calls = []\<rparr> =
          Some (Inl TypeError)
    | _ \<Rightarrow> False) \<and>
   update_entry ex_aenv (ex_batch None (Some 12) (Some 1) False 8) ex_applier = Some (Inl TypeError) \<and>
   reenter 40 ex_senv [\<lparr>r_el = Some 12, r_cb = 1, r_context = [], r_updateOwner = True\<rparr>] ex_stem =
     Some (Inl TypeError)"
proof (intro conjI)
  have thrown: "x = Some (Inl TypeError)"
    if "(case x of Some (Inl e) \<Rightarrow> e = TypeError | _ \<Rightarrow> False)"
    for x :: "(error + 'a) option"
    using that by (auto split: option.splits sum.splits)
  have walked: "(case patch 10 ex_env (Some 1) (Some 12) [] ex_heap of
      Some (Inr w) \<Rightarrow>
        map (\<lambda>b. (b_parent b, b_newElement b, b_oldElement b, b_isKeyedItem b,
                   flags (b_difference b))) (batchs w) =
          [(None, Some 12, Some 1, False, REPLACE_ELEMENT), (Some 12, None, Some 2, False, 2),
           (Some 12, None, Some 3, False, 2)] \<and>
        isReplaceElement ex_aenv (b_difference (hd (batchs w))) \<and>
        (case update ex_aenv (batchs w)
                \<lparr>wld = \<lparr>w_elems = elems w, nodes = ex_nodes\<rparr>, calls = []\<rparr> of
           Some (Inl e) \<Rightarrow> e = TypeError
         | _ \<Rightarrow> False)
    | _ \<Rightarrow> False)"
    by code_simp
  show "(case patch 10 ex_env (Some 1) (Some 12) [] ex_heap of
      Some (Inr w) \<Rightarrow>
        map (\<lambda>b. (b_parent b, b_newElement b, b_oldElement b, b_isKeyedItem b,
                   flags (b_difference b))) (batchs w) =
          [(None, Some 12, Some 1, False, REPLACE_ELEMENT), (Some 12, None, Some 2, False, 2),
           (Some 12, None, Some 3, False, 2)] \<and>
        isReplaceElement ex_aenv (b_difference (hd (batchs w))) \<and>
        update ex_aenv (batchs w) \<lparr>wld = \<lparr>w_elems = elems w, nodes = ex_nodes\<rparr>, calls = []\<rparr> =
          Some (Inl TypeError)
    | _ \<Rightarrow> False)"
  proof (cases "patch 10 ex_env (Some 1) (Some 12) [] ex_heap")
    case None
    with walked show ?thesis by simp
  next
    case (Some r)
    show ?thesis
    proof (cases r)
      case (Inl e)
      with Some walked show ?thesis by simp
    next
      case (Inr w)
      with Some walked have entries:
        "map (\<lambda>b. (b_parent b, b_newElement b, b_oldElement b, b_isKeyedItem b,
                   flags (b_difference b))) (batchs w) =
          [(None, Some 12, Some 1, False, REPLACE_ELEMENT), (Some 12, None, Some 2, False, 2),
           (Some 12, None, Some 3, False, 2)]"
        "isReplaceElement ex_aenv (b_difference (hd (batchs w)))"
        and applied: "(case update ex_aenv (batchs w)
                \<lparr>wld = \<lparr>w_elems = elems w, nodes = ex_nodes\<rparr>, calls = []\<rparr> of
           Some (Inl e) \<Rightarrow> e = TypeError
         | _ \<Rightarrow> False)"
        by simp_all
      from thrown[OF applied] entries Some Inr show ?thesis by simp
    qed
  qed
  have "(case update_entry ex_aenv (ex_batch None (Some 12) (Some 1) False 8) ex_applier of
           Some (Inl e) \<Rightarrow> e = TypeError
         | _ \<Rightarrow> False)"
    by code_simp
  then show "update_entry ex_aenv (ex_batch None (Some 12) (Some 1) False 8) ex_applier =
               Some (Inl TypeError)"
    by (rule thrown)
  have "(case reenter 40 ex_senv
                [\<lparr>r_el = Some 12, r_cb = 1, r_context = [], r_updateOwner = True\<rparr>] ex_stem of
           Some (Inl e) \<Rightarrow> e = TypeError
         | _ \<Rightarrow> False)"
    by code_simp
  then show "reenter 40 ex_senv
               [\<lparr>r_el = Some 12, r_cb = 1, r_context = [], r_updateOwner = True\<rparr>] ex_stem =
             Some (Inl TypeError)"
    by (rule thrown)
qed

section \<open>Properties of the stem\<close>

lemma run_journal_None [simp]: "run_journal None es = None"
  by (induction es) simp_all

lemma run_journal_append: "run_journal p (xs @ ys) = run_journal (run_journal p xs) ys"
  by (induction xs arbitrary: p) simp_all

lemma run_journal_snoc:
  "run_journal p js = Some q \<Longrightarrow> run_journal p (js @ [e]) = advance q e"
  by (simp add: run_journal_append)

lemma queued_of_append: "queued_of (xs @ ys) = queued_of xs @ queued_of ys"
  by (induction xs rule: queued_of.induct) simp_all

lemma replayed_of_append: "replayed_of (xs @ ys) = replayed_of xs @ replayed_of ys"
  by (induction xs rule: replayed_of.induct) simp_all

lemma render_locked:
  "enabled S \<Longrightarrow> lock S \<Longrightarrow> render (Suc n) X r S = Some (Inr (enqueue r S))"
  by (simp add: enqueue_def note_event_def)

lemma consistent_enqueue:
  assumes "consistent (Arriving p (r_el r) (r_cb r)) S" and "in_flight p"
  shows "consistent p (enqueue r S)"
  using assms
  by (simp add: consistent_def enqueue_def run_journal_snoc advance_def queued_of_append
        replayed_of_append)

lemma consistent_requested:
  assumes "consistent p S"
  shows "in_flight p \<Longrightarrow> consistent (Arriving p el cb) (note_event (Requested el cb c u) S)"
    and "p = Idle \<or> p = Released \<Longrightarrow>
         consistent (Asked el c u) (note_event (Requested el cb c u) S)"
  using assms
  by (auto simp: consistent_def note_event_def run_journal_snoc advance_def queued_of_append
        replayed_of_append in_flight_def)

lemma note_event_fields [simp]:
  "lock (note_event e S) = lock S" "enabled (note_event e S) = enabled S"
  "tree (note_event e S) = tree S" "batchCallback (note_event e S) = batchCallback S"
  "stem_batchs (note_event e S) = stem_batchs S" "machine (note_event e S) = machine S"
  "renderQueue (note_event e S) = renderQueue S"
  by (simp_all add: note_event_def)

lemma enqueue_fields [simp]:
  "lock (enqueue r S) = lock S" "enabled (enqueue r S) = enabled S" "tree (enqueue r S) = tree S"
  "batchCallback (enqueue r S) = batchCallback S" "stem_batchs (enqueue r S) = stem_batchs S"
  "machine (enqueue r S) = machine S"
  by (simp_all add: enqueue_def)

lemma reenter_locked:
  assumes "reenter n X rs S = Some (Inr S')" and "consistent p S" and "in_flight p" and "lock S"
  shows "consistent p S' \<and> lock S' \<and> tree S' = tree S \<and> batchCallback S' = batchCallback S \<and>
         stem_batchs S' = stem_batchs S \<and> machine S' = machine S"
  using assms
proof (induction rs arbitrary: n S)
  case Nil
  then show ?case by simp
next
  case (Cons r rs)
  from Cons.prems(1) obtain m where n: "n = Suc m" by (cases n) auto
  define S0 where "S0 = note_event (Requested (r_el r) (r_cb r) (r_context r) (r_updateOwner r)) S"
  from Cons.prems(1) n obtain S1 where r1: "render m X r S0 = Some (Inr S1)"
    and r2: "reenter m X rs S1 = Some (Inr S')"
    by (auto simp: S0_def dest!: bindR_Inr)
  from r1 obtain k where m: "m = Suc k" by (cases m) auto
  from Cons.prems(2) have en: "enabled S0" by (simp add: consistent_def S0_def)
  from Cons.prems(4) have l0: "lock S0" by (simp add: S0_def)
  from r1 m render_locked[OF en l0] have S1: "S1 = enqueue r S0" by simp
  from consistent_requested(1)[OF Cons.prems(2,3)]
  have "consistent (Arriving p (r_el r) (r_cb r)) S0" by (simp add: S0_def)
  from this Cons.prems(3) have c1: "consistent p (enqueue r S0)" by (rule consistent_enqueue)
  from Cons.IH[OF r2, unfolded S1, OF c1 Cons.prems(3)] l0 S1
  show ?case by (simp add: S0_def)
qed


lemma run_patch_fields:
  assumes "run_patch n X el c S = Some (Inr S')"
  shows "enabled S' = enabled S" "lock S' = lock S" "tree S' = tree S"
    "renderQueue S' = renderQueue S" "journal S' = journal S" "batchCallback S' = batchCallback S"
  using assms by (auto simp: run_patch_def dest!: bindR_Inr)

lemma run_update_fields:
  assumes "run_update X S = Some (Inr S')"
  shows "enabled S' = enabled S" "lock S' = lock S" "tree S' = tree S"
    "renderQueue S' = renderQueue S" "journal S' = journal S @ [Applied]"
    "batchCallback S' = batchCallback S"
  using assms by (auto simp: run_update_def note_event_def dest!: bindR_Inr)

lemma consistent_cong:
  assumes "consistent p S" and "enabled S' = enabled S" and "journal S' = journal S"
    and "renderQueue S' = renderQueue S"
  shows "consistent p S'"
  using assms by (simp add: consistent_def)

lemma consistent_event:
  assumes "consistent p S" and "advance p e = Some q"
    and "queued_of [e] = []" and "replayed_of [e] = []"
    and "enabled S' = enabled S" and "journal S' = journal S @ [e]"
    and "renderQueue S' = renderQueue S"
  shows "consistent q S'"
  using assms
  by (simp add: consistent_def run_journal_snoc queued_of_append replayed_of_append)

lemma settled_batchCallback [simp]: "settled (S\<lparr>batchCallback := b\<rparr>) = settled S"
  by (simp add: settled_def consistent_def)

lemma tree_dom_Inr: "tree_dom S = Inr d \<Longrightarrow> tree S \<noteq> None"
  by (auto simp: tree_dom_def dom_of_def split: option.splits)

lemma render_step:
  assumes raf: "\<And>el S S'. renderAtAnimationFrame n X el S = Some (Inr S') \<Longrightarrow>
                  consistent Walked S \<Longrightarrow> lock S \<Longrightarrow> settled S'"
    and run: "render (Suc n) X r S = Some (Inr S')"
    and con: "consistent p S" and unl: "\<not> lock S" and att: "tree S \<noteq> None"
    and ph: "p = Asked (r_el r) (r_context r) (r_updateOwner r) \<or>
             (p = Taken (r_el r) \<and> r_context r = [] \<and> r_updateOwner r)"
  shows "settled S'"
proof -
  from con have en: "enabled S" by (simp add: consistent_def)
  define S1 where "S1 = note_event (Locked (r_el r) (r_context r) (r_updateOwner r))
                          ((external UpdateId S)\<lparr>lock := True\<rparr>)"
  from ph have adv: "advance p (Locked (r_el r) (r_context r) (r_updateOwner r)) = Some Walked"
    by (auto simp: advance_def)
  have c1: "consistent Walked S1"
    by (rule consistent_event[OF con adv]) (simp_all add: S1_def note_event_def external_def)
  have l1: "lock S1" by (simp add: S1_def note_event_def)
  from att obtain t where t: "tree (external UpdateId S) = Some t"
    by (auto simp: external_def)
  from run en unl t obtain S2 S3 where
    p: "run_patch n X (r_el r) (r_context r) S1 = Some (Inr S2)"
    and re: "reenter n X (reenters X (DuringPatch (r_el r)) S2) S2 = Some (Inr S3)"
    and fr: "renderAtAnimationFrame n X (r_el r)
               (S3\<lparr>tree := (if r_updateOwner r then r_el r else tree S3),
                   batchCallback := Some (tree S3, r_cb r)\<rparr>) = Some (Inr S')"
    by (auto simp: Let_def S1_def dest!: bindR_Inr)
  from run_patch_fields[OF p] c1 l1 have c2: "consistent Walked S2" and l2: "lock S2"
    by (auto intro: consistent_cong)
  from reenter_locked[OF re c2 _ l2] have c3: "consistent Walked S3" and l3: "lock S3"
    by (simp_all add: in_flight_def)
  from c3 have "consistent Walked (S3\<lparr>tree := (if r_updateOwner r then r_el r else tree S3),
                   batchCallback := Some (tree S3, r_cb r)\<rparr>)"
    by (simp add: consistent_def)
  from raf[OF fr this] l3 show ?thesis by simp
qed

lemma raf_step:
  assumes cb: "\<And>S S'. invoke_batchCallback n X S = Some (Inr S') \<Longrightarrow>
                  consistent AppliedP S \<Longrightarrow> lock S \<Longrightarrow> settled S'"
    and run: "renderAtAnimationFrame (Suc n) X el S = Some (Inr S')"
    and con: "consistent Walked S" and l: "lock S"
  shows "settled S'"
proof (cases "stem_batchs S = []")
  case True
  with run have "S' = S" by simp
  with con l show ?thesis by (auto simp: settled_def in_flight_def)
next
  case False
  with run obtain S1 S2 S3 where
    u: "run_update X S = Some (Inr S1)"
    and re: "reenter n X (reenters X (DuringUpdate el) S1) S1 = Some (Inr S2)"
    and ib: "invoke_batchCallback n X (S2\<lparr>stem_batchs := []\<rparr>) = Some (Inr S3)"
    and fin: "S' = S3\<lparr>batchCallback := None\<rparr>"
    by (auto dest!: bindR_Inr)
  have c1: "consistent AppliedP S1"
    by (rule consistent_event[OF con, of Applied])
      (simp_all add: advance_def run_update_fields[OF u])
  from run_update_fields(2)[OF u] l have l1: "lock S1" by simp
  from reenter_locked[OF re c1 _ l1] have c2: "consistent AppliedP S2" and l2: "lock S2"
    by (simp_all add: in_flight_def)
  from c2 have "consistent AppliedP (S2\<lparr>stem_batchs := []\<rparr>)" by (simp add: consistent_def)
  from cb[OF ib this] l2 fin show ?thesis by simp
qed

lemma cb_step:
  assumes dr: "\<And>S S'. drainRenderQueue n X S = Some (Inr S') \<Longrightarrow>
                  consistent Released S \<Longrightarrow> \<not> lock S \<Longrightarrow> tree S \<noteq> None \<Longrightarrow> settled S'"
    and run: "invoke_batchCallback (Suc n) X S = Some (Inr S')"
    and con: "consistent AppliedP S" and l: "lock S"
  shows "settled S'"
proof (cases "batchCallback S")
  case None
  with run have "S' = S" by simp
  with con l show ?thesis by (auto simp: settled_def in_flight_def)
next
  case (Some oc)
  obtain old cb where oc: "oc = (old, cb)" by (cases oc)
  define S0 where "S0 = note_event (Cleaned old) (external (CleanupTree old) S)"
  have c0: "consistent CleanedP S0"
    by (rule consistent_event[OF con, of "Cleaned old"])
      (simp_all add: advance_def S0_def note_event_def external_def)
  have l0: "lock S0" using l by (simp add: S0_def note_event_def external_def)
  from run Some oc obtain S1 d S2 where
    re1: "reenter n X (reenters X (DuringCleanup old) S0) S0 = Some (Inr S1)"
    and td: "tree_dom S1 = Inr d"
    and re2: "reenter n X
                (reenters X (DuringCallback cb)
                   (note_event (CalledBack cb) (external (Callback cb d) S1)))
                (note_event (CalledBack cb) (external (Callback cb d) S1)) = Some (Inr S2)"
    and dq: "drainRenderQueue n X (note_event Unlocked (S2\<lparr>lock := False\<rparr>)) = Some (Inr S')"
    by (auto simp: S0_def Let_def dest!: bindR_Inr split: sum.splits)
  from reenter_locked[OF re1 c0 _ l0] have c1: "consistent CleanedP S1" and l1: "lock S1"
    by (simp_all add: in_flight_def)
  define S1' where "S1' = note_event (CalledBack cb) (external (Callback cb d) S1)"
  have c1': "consistent CalledP S1'"
    by (rule consistent_event[OF c1, of "CalledBack cb"])
      (simp_all add: advance_def S1'_def note_event_def external_def)
  have l1': "lock S1'" and t1': "tree S1' = tree S1"
    using l1 by (simp_all add: S1'_def note_event_def external_def)
  from reenter_locked[OF re2[folded S1'_def] c1' _ l1']
  have c2: "consistent CalledP S2" and t2: "tree S2 = tree S1'"
    by (simp_all add: in_flight_def)
  have c3: "consistent Released (note_event Unlocked (S2\<lparr>lock := False\<rparr>))"
    by (rule consistent_event[OF c2, of Unlocked])
      (simp_all add: advance_def note_event_def)
  from tree_dom_Inr[OF td] t1' t2
  have "tree (note_event Unlocked (S2\<lparr>lock := False\<rparr>)) \<noteq> None"
    by (simp add: note_event_def)
  from dr[OF dq c3 _ this] show ?thesis by (simp add: note_event_def)
qed

lemma drain_step:
  assumes rn: "\<And>r S S' p. render n X r S = Some (Inr S') \<Longrightarrow> consistent p S \<Longrightarrow>
                  \<not> lock S \<Longrightarrow> tree S \<noteq> None \<Longrightarrow>
                  p = Asked (r_el r) (r_context r) (r_updateOwner r) \<or>
                    (p = Taken (r_el r) \<and> r_context r = [] \<and> r_updateOwner r) \<Longrightarrow>
                  settled S'"
    and run: "drainRenderQueue (Suc n) X S = Some (Inr S')"
    and con: "consistent Released S" and unl: "\<not> lock S" and att: "tree S \<noteq> None"
  shows "settled S'"
proof (cases "renderQueue S")
  case Nil
  with run have "S' = S" by simp
  with con unl att Nil show ?thesis by (auto simp: settled_def)
next
  case (Cons x q)
  obtain el cb where x: "x = (el, cb)" by (cases x)
  define T where "T = note_event (Replayed el cb) (S\<lparr>renderQueue := q\<rparr>)"
  from run Cons x have r: "render n X \<lparr>r_el = el, r_cb = cb, r_context = [], r_updateOwner = True\<rparr> T
                            = Some (Inr S')"
    by (simp add: T_def)
  from con Cons x have cT: "consistent (Taken el) T"
    by (simp add: consistent_def T_def note_event_def run_journal_snoc advance_def
          queued_of_append replayed_of_append)
  from unl att have "\<not> lock T" "tree T \<noteq> None" by (simp_all add: T_def note_event_def)
  from rn[OF r cT this] show ?thesis by simp
qed

lemma cycle_settles:
  "(\<forall>r S S' p. render n X r S = Some (Inr S') \<longrightarrow> consistent p S \<longrightarrow> \<not> lock S \<longrightarrow>
        tree S \<noteq> None \<longrightarrow>
        p = Asked (r_el r) (r_context r) (r_updateOwner r) \<or>
          (p = Taken (r_el r) \<and> r_context r = [] \<and> r_updateOwner r) \<longrightarrow>
        settled S') \<and>
   (\<forall>el S S'. renderAtAnimationFrame n X el S = Some (Inr S') \<longrightarrow> consistent Walked S \<longrightarrow>
        lock S \<longrightarrow> settled S') \<and>
   (\<forall>S S'. invoke_batchCallback n X S = Some (Inr S') \<longrightarrow> consistent AppliedP S \<longrightarrow>
        lock S \<longrightarrow> settled S') \<and>
   (\<forall>S S'. drainRenderQueue n X S = Some (Inr S') \<longrightarrow> consistent Released S \<longrightarrow>
        \<not> lock S \<longrightarrow> tree S \<noteq> None \<longrightarrow> settled S')"
proof (induction n)
  case 0
  show ?case by simp
next
  case (Suc n)
  show ?case
  proof (intro conjI allI impI)
    fix r S S' p
    assume "render (Suc n) X r S = Some (Inr S')" "consistent p S" "\<not> lock S" "tree S \<noteq> None"
      "p = Asked (r_el r) (r_context r) (r_updateOwner r) \<or>
         (p = Taken (r_el r) \<and> r_context r = [] \<and> r_updateOwner r)"
    with Suc show "settled S'" by (intro render_step[of n X r S S' p]) blast+
  next
    fix el S S'
    assume "renderAtAnimationFrame (Suc n) X el S = Some (Inr S')" "consistent Walked S" "lock S"
    with Suc show "settled S'" by (intro raf_step[of n X el S S']) blast+
  next
    fix S S'
    assume "invoke_batchCallback (Suc n) X S = Some (Inr S')" "consistent AppliedP S" "lock S"
    with Suc show "settled S'" by (intro cb_step[of n X S S']) blast+
  next
    fix S S'
    assume "drainRenderQueue (Suc n) X S = Some (Inr S')" "consistent Released S" "\<not> lock S"
      "tree S \<noteq> None"
    with Suc show "settled S'" by (intro drain_step[of n X S S']) blast+
  qed
qed

lemma request_settled:
  assumes "settled S"
    and "render n X r (note_event (Requested (r_el r) (r_cb r) (r_context r) (r_updateOwner r)) S)
         = Some (Inr S')"
  shows "settled S'"
proof -
  define S0 where "S0 = note_event (Requested (r_el r) (r_cb r) (r_context r) (r_updateOwner r)) S"
  from assms(1) obtain p where con: "consistent p S"
    and alt: "if lock S then in_flight p
              else (p = Idle \<or> p = Released) \<and> renderQueue S = [] \<and> tree S \<noteq> None"
    by (auto simp: settled_def)
  from assms(2) have run: "render n X r S0 = Some (Inr S')" by (simp add: S0_def)
  show ?thesis
  proof (cases "lock S")
    case True
    from run obtain k where n: "n = Suc k" by (cases n) auto
    from con have "enabled S0" by (simp add: consistent_def S0_def)
    moreover from True have l0: "lock S0" by (simp add: S0_def)
    ultimately have "render (Suc k) X r S0 = Some (Inr (enqueue r S0))" by (rule render_locked)
    with run n have S': "S' = enqueue r S0" by simp
    from True alt have fl: "in_flight p" by simp
    from consistent_requested(1)[OF con fl]
    have "consistent (Arriving p (r_el r) (r_cb r)) S0" by (simp add: S0_def)
    from this fl have "consistent p (enqueue r S0)" by (rule consistent_enqueue)
    with fl l0 S' show ?thesis by (auto simp: settled_def)
  next
    case False
    with alt have ph: "p = Idle \<or> p = Released" and att: "tree S \<noteq> None" by simp_all
    from consistent_requested(2)[OF con ph]
    have c0: "consistent (Asked (r_el r) (r_context r) (r_updateOwner r)) S0" by (simp add: S0_def)
    from False att have "\<not> lock S0" "tree S0 \<noteq> None" by (simp_all add: S0_def)
    with cycle_settles[of n X] run c0 show ?thesis by blast
  qed
qed

lemma reenter_settled:
  "settled S \<Longrightarrow> reenter n X rs S = Some (Inr S') \<Longrightarrow> settled S'"
proof (induction rs arbitrary: n S)
  case Nil
  then show ?case by simp
next
  case (Cons r rs)
  from Cons.prems(2) obtain m where n: "n = Suc m" by (cases n) auto
  from Cons.prems(2) n obtain S1 where
    r1: "render m X r
           (note_event (Requested (r_el r) (r_cb r) (r_context r) (r_updateOwner r)) S)
         = Some (Inr S1)"
    and r2: "reenter m X rs S1 = Some (Inr S')"
    by (auto dest!: bindR_Inr)
  from Cons.IH[OF request_settled[OF Cons.prems(1) r1] r2] show ?case .
qed

lemma idle_settled:
  assumes "enabled S" and "\<not> lock S" and "tree S \<noteq> None" and "renderQueue S = []"
    and "journal S = []"
  shows "settled S"
  using assms by (auto simp: settled_def consistent_def)

lemma run_journal_Cons_Some:
  "run_journal (Some p) (e # es) = Some q \<Longrightarrow>
   \<exists>p'. advance p e = Some p' \<and> run_journal (Some p') es = Some q"
  by (cases "advance p e") simp_all

lemma accepted_replays_defaulted:
  "run_journal (Some p) js = Some q \<Longrightarrow> (\<And>el. q \<noteq> Taken el) \<Longrightarrow> replays_defaulted js"
proof (induction js arbitrary: p)
  case Nil
  show ?case by simp
next
  case (Cons e es)
  from run_journal_Cons_Some[OF Cons.prems(1)] obtain p' where
    adv: "advance p e = Some p'" and r: "run_journal (Some p') es = Some q"
    by blast
  from Cons.IH[OF r Cons.prems(2)] have ih: "replays_defaulted es" .
  show ?case
  proof (cases e)
    case (Replayed el cb)
    with adv have p': "p' = Taken el" by (auto simp: advance_def split: if_splits)
    show ?thesis
    proof (cases es)
      case Nil
      with r p' have "q = Taken el" by simp
      with Cons.prems(2)[of el] show ?thesis by simp
    next
      case (Cons e' rest)
      with r p' have "advance (Taken el) e' \<noteq> None"
        by (cases "advance (Taken el) e'") simp_all
      then obtain el' c u where "e' = Locked el' c u" "el' = el" "c = []" "u"
        by (cases e') (auto simp: advance_def in_flight_def split: if_splits)
      with ih Cons Replayed show ?thesis by simp
    qed
  qed (use ih in simp_all)
qed



text \<open>
  C9. A call of \<open>render\<close> on a locked stem stores the element and the callback in the
  queue and nothing else of the request; \<open>drainRenderQueue\<close> replays the head of the
  queue as a call of \<open>render\<close> with the empty context and \<open>updateOwnwer = true\<close>; and
  in every run from an attached idle stem each request taken from the queue starts its
  cycle with these defaults, whatever the caller passed.
\<close>

theorem queued_render_replays_with_defaults:
  "(enabled T \<and> lock T \<longrightarrow>
      render (Suc k) X r T =
        Some (Inr (T\<lparr>renderQueue := renderQueue T @ [(r_el r, r_cb r)],
                    journal := journal T @ [Queued (r_el r) (r_cb r)]\<rparr>))) \<and>
   (renderQueue T = (el, cb) # q \<longrightarrow>
      drainRenderQueue (Suc k) X T =
        render k X \<lparr>r_el = el, r_cb = cb, r_context = [], r_updateOwner = True\<rparr>
          (T\<lparr>renderQueue := q, journal := journal T @ [Replayed el cb]\<rparr>)) \<and>
   (enabled S \<and> \<not> lock S \<and> tree S \<noteq> None \<and> renderQueue S = [] \<and> journal S = [] \<and>
    reenter n X rs S = Some (Inr S') \<longrightarrow> replays_defaulted (journal S'))"
proof (intro conjI impI)
  assume "enabled T \<and> lock T"
  then show "render (Suc k) X r T =
        Some (Inr (T\<lparr>renderQueue := renderQueue T @ [(r_el r, r_cb r)],
                    journal := journal T @ [Queued (r_el r) (r_cb r)]\<rparr>))"
    by (simp add: note_event_def)
next
  assume "renderQueue T = (el, cb) # q"
  then show "drainRenderQueue (Suc k) X T =
        render k X \<lparr>r_el = el, r_cb = cb, r_context = [], r_updateOwner = True\<rparr>
          (T\<lparr>renderQueue := q, journal := journal T @ [Replayed el cb]\<rparr>)"
    by (simp add: note_event_def)
next
  assume a: "enabled S \<and> \<not> lock S \<and> tree S \<noteq> None \<and> renderQueue S = [] \<and> journal S = [] \<and>
    reenter n X rs S = Some (Inr S')"
  then have "settled S" by (intro idle_settled) simp_all
  with a have "settled S'" by (blast intro: reenter_settled)
  then obtain p where "run_journal (Some Idle) (journal S') = Some p" "\<And>el. p \<noteq> Taken el"
    by (auto simp: settled_def consistent_def in_flight_def split: if_splits)
  then show "replays_defaulted (journal S')" by (rule accepted_replays_defaulted)
qed

lemma ex_stem_run:
  "(case reenter 40 ex_senv [ex_request] ex_stem of
      Some (Inr S') \<Rightarrow>
        journal S' =
          [Requested (Some 11) 1 [] True,
           Locked (Some 11) [] True, Applied, Cleaned (Some 1), CalledBack 1,
           Requested (Some 11) 2 [(''k'', ''v'')] False, Queued (Some 11) 2,
           Requested (Some 11) 3 [(''k'', ''v'')] False, Queued (Some 11) 3, Unlocked,
           Replayed (Some 11) 2, Locked (Some 11) [] True, Applied, Cleaned (Some 11),
           CalledBack 2, Unlocked,
           Replayed (Some 11) 3, Locked (Some 11) [] True, Applied, Cleaned (Some 11),
           CalledBack 3, Unlocked] \<and>
        renderQueue S' = [] \<and> \<not> lock S'
    | _ \<Rightarrow> False)"
  by code_simp



theorem queued_render_replays_with_defaults_witness:
  "(case reenter 40 ex_senv [ex_request] ex_stem of
      Some (Inr S') \<Rightarrow>
        replays_defaulted (journal S') \<and>
        filter (\<lambda>e. case e of Locked el c u \<Rightarrow> True | _ \<Rightarrow> False) (journal S') =
          [Locked (Some 11) [] True, Locked (Some 11) [] True, Locked (Some 11) [] True]
    | _ \<Rightarrow> False)"
proof -
  from ex_stem_run obtain S' where run: "reenter 40 ex_senv [ex_request] ex_stem = Some (Inr S')"
    and j: "journal S' =
          [Requested (Some 11) 1 [] True,
           Locked (Some 11) [] True, Applied, Cleaned (Some 1), CalledBack 1,
           Requested (Some 11) 2 [(''k'', ''v'')] False, Queued (Some 11) 2,
           Requested (Some 11) 3 [(''k'', ''v'')] False, Queued (Some 11) 3, Unlocked,
           Replayed (Some 11) 2, Locked (Some 11) [] True, Applied, Cleaned (Some 11),
           CalledBack 2, Unlocked,
           Replayed (Some 11) 3, Locked (Some 11) [] True, Applied, Cleaned (Some 11),
           CalledBack 3, Unlocked]"
    by (auto split: option.splits sum.splits)
  have pre: "enabled ex_stem \<and> \<not> lock ex_stem \<and> tree ex_stem \<noteq> None \<and>
    renderQueue ex_stem = [] \<and> journal ex_stem = [] \<and>
    reenter 40 ex_senv [ex_request] ex_stem = Some (Inr S')"
    using run by (simp add: ex_stem_def)
  from queued_render_replays_with_defaults[where S = ex_stem and n = 40 and X = ex_senv
      and rs = "[ex_request]" and S' = S'] pre
  have "replays_defaulted (journal S')" by blast
  moreover have "filter (\<lambda>e. case e of Locked el c u \<Rightarrow> True | _ \<Rightarrow> False) (journal S') =
          [Locked (Some 11) [] True, Locked (Some 11) [] True, Locked (Some 11) [] True]"
    by (simp add: j)
  ultimately show ?thesis using run by simp
qed

end
